theory Spec2Isabelle
  imports Complex_Main
begin

section \<open>Goal Ball server: the authoritative simulation\<close>

text \<open>
  The server part of \<^verbatim>\<open>src/public/client.js\<close> (lines 1270 to 1558): the
  configuration constants, the entity constructors, the geometry helpers, the tick
  function \<^verbatim>\<open>update\<close>, the snapshot built by \<^verbatim>\<open>broadcastState\<close> and the
  three WebSocket handlers (connection, message, close).
\<close>

subsection \<open>JavaScript numbers\<close>

text \<open>
  A JavaScript number is modelled as a real or \<open>NaN\<close>, and the model computes
  exactly: the rounding, the underflow and the infinities of IEEE doubles are not
  modelled. In the theorems of the claims, what is said of the arithmetic is therefore
  said either of the values that the code's own expressions return, whatever they are,
  or on inputs for which double arithmetic is exact (integers and halves of small
  magnitude). \<open>NaN\<close> is kept because the message handler can store it: arithmetic
  propagates it, every comparison with it is false, \<^verbatim>\<open>!==\<close> with it is true.
\<close>

datatype num = Num real | NaN

instantiation num :: "{plus, minus, times, inverse}"
begin

fun plus_num :: "num \<Rightarrow> num \<Rightarrow> num" where
  "plus_num (Num a) (Num b) = Num (a + b)"
| "plus_num _ _ = NaN"

fun minus_num :: "num \<Rightarrow> num \<Rightarrow> num" where
  "minus_num (Num a) (Num b) = Num (a - b)"
| "minus_num _ _ = NaN"

fun times_num :: "num \<Rightarrow> num \<Rightarrow> num" where
  "times_num (Num a) (Num b) = Num (a * b)"
| "times_num _ _ = NaN"

text \<open>
  Division by zero gives an infinity or \<open>NaN\<close> in JavaScript. In exact arithmetic every
  divisor of the source is a magnitude that is non-zero where it is used (see
  \<open>move_divisor_nonzero\<close> and \<open>js_or_nonzero\<close>), and the model maps division by zero
  to \<open>NaN\<close>. In doubles the sum of squares under a square root underflows to zero
  for a non-zero vector whose components are below about \<open>1e-162\<close>; the model does not
  cover such inputs.
\<close>

fun divide_num :: "num \<Rightarrow> num \<Rightarrow> num" where
  "divide_num (Num a) (Num b) = (if b = 0 then NaN else Num (a / b))"
| "divide_num _ _ = NaN"

fun inverse_num :: "num \<Rightarrow> num" where
  "inverse_num (Num a) = (if a = 0 then NaN else Num (1 / a))"
| "inverse_num NaN = NaN"

instance ..

end

fun Math_sqrt :: "num \<Rightarrow> num" where
  "Math_sqrt (Num a) = (if a < 0 then NaN else Num (sqrt a))"
| "Math_sqrt NaN = NaN"

fun Math_abs :: "num \<Rightarrow> num" where
  "Math_abs (Num a) = Num \<bar>a\<bar>"
| "Math_abs NaN = NaN"

fun Math_min :: "num \<Rightarrow> num \<Rightarrow> num" where
  "Math_min (Num a) (Num b) = Num (min a b)"
| "Math_min _ _ = NaN"

fun Math_max :: "num \<Rightarrow> num \<Rightarrow> num" where
  "Math_max (Num a) (Num b) = Num (max a b)"
| "Math_max _ _ = NaN"

text \<open>\<^verbatim>\<open>a < b\<close> and \<^verbatim>\<open>a > b\<close>: false as soon as one side is \<open>NaN\<close>.\<close>

fun js_lt :: "num \<Rightarrow> num \<Rightarrow> bool" where
  "js_lt (Num a) (Num b) = (a < b)"
| "js_lt _ _ = False"

fun js_gt :: "num \<Rightarrow> num \<Rightarrow> bool" where
  "js_gt (Num a) (Num b) = (a > b)"
| "js_gt _ _ = False"

text \<open>\<^verbatim>\<open>a !== 0\<close> on numbers.\<close>

fun ne0 :: "num \<Rightarrow> bool" where
  "ne0 (Num a) = (a \<noteq> 0)"
| "ne0 NaN = True"

text \<open>\<^verbatim>\<open>a || d\<close> on numbers: \<open>0\<close> and \<open>NaN\<close> are falsy.\<close>

fun js_or :: "num \<Rightarrow> num \<Rightarrow> num" where
  "js_or (Num a) d = (if a = 0 then d else Num a)"
| "js_or NaN d = d"

text \<open>
  Truthiness of a value that is \<^verbatim>\<open>null\<close> or a string, as in
  \<^verbatim>\<open>if (player.carryingBallId)\<close>: \<^verbatim>\<open>null\<close> and the empty string are falsy.
\<close>

fun truthy :: "string option \<Rightarrow> bool" where
  "truthy None = False"
| "truthy (Some s) = (s \<noteq> [])"

subsection \<open>Configuration constants\<close>

definition WORLD_WIDTH :: real where "WORLD_WIDTH = 800"
definition WORLD_HEIGHT :: real where "WORLD_HEIGHT = 600"
definition PLAYER_SPEED :: real where "PLAYER_SPEED = 3"
definition BALL_RADIUS :: real where "BALL_RADIUS = 3"
definition PLAYER_RADIUS :: real where "PLAYER_RADIUS = 5"
definition BALL_COUNT :: nat where "BALL_COUNT = 5"
definition GOAL_WIDTH :: real where "GOAL_WIDTH = 60"
definition GOAL_DEPTH :: real where "GOAL_DEPTH = 20"
definition TEAMS :: "string list" where "TEAMS = [''left'', ''right'']"

subsection \<open>Entities and state\<close>

record ball =
  b_id :: string
  b_x :: num
  b_y :: num
  carriedBy :: "string option"

text \<open>The \<^verbatim>\<open>ws\<close> field of a player (its socket) is left out: no claim reads it.\<close>

record player =
  p_id :: string
  team :: string
  p_x :: num
  p_y :: num
  dirX :: num
  dirY :: num
  score :: int
  carryingBallId :: "string option"

text \<open>
  \<^verbatim>\<open>uuidv4\<close>, \<^verbatim>\<open>Math.random\<close> and the string-to-number conversion of the
  language are not code of this repository. They are parameters: \<open>uuidv4 env k\<close> is
  what the \<open>k\<close>-th call of \<^verbatim>\<open>uuidv4()\<close> returns, \<open>Math_random env k\<close> what the
  \<open>k\<close>-th call of \<^verbatim>\<open>Math.random()\<close> returns.
\<close>

record env =
  uuidv4 :: "nat \<Rightarrow> string"
  Math_random :: "nat \<Rightarrow> real"
  StringToNumber :: "string \<Rightarrow> num"

text \<open>
  The two \<^verbatim>\<open>Map\<close>s are lists of their values in insertion order, which is the order
  \<^verbatim>\<open>values()\<close> iterates in. Every \<^verbatim>\<open>set\<close> of the source uses the value's own
  \<^verbatim>\<open>id\<close> as the key, so the key of an entry is its id field. The two call counters
  say how many results of \<open>env\<close> have been consumed.
\<close>

record state =
  players :: "player list"
  balls :: "ball list"
  nextTeamIndex :: nat
  uuidCalls :: nat
  randomCalls :: nat

subsection \<open>Map operations\<close>

definition map_get :: "('a \<Rightarrow> string) \<Rightarrow> 'a list \<Rightarrow> string \<Rightarrow> 'a option" where
  "map_get key xs k = find (\<lambda>x. key x = k) xs"

text \<open>\<^verbatim>\<open>m.set(key v, v)\<close>: an existing key keeps its place, a new one goes last.\<close>

fun map_set :: "('a \<Rightarrow> string) \<Rightarrow> 'a list \<Rightarrow> 'a \<Rightarrow> 'a list" where
  "map_set key [] v = [v]"
| "map_set key (x # xs) v = (if key x = key v then v # xs else x # map_set key xs v)"

fun map_delete :: "('a \<Rightarrow> string) \<Rightarrow> 'a list \<Rightarrow> string \<Rightarrow> 'a list" where
  "map_delete key [] k = []"
| "map_delete key (x # xs) k = (if key x = k then xs else x # map_delete key xs k)"

text \<open>A field assignment on the object that \<^verbatim>\<open>m.get(k)\<close> returned.\<close>

fun map_modify :: "('a \<Rightarrow> string) \<Rightarrow> ('a \<Rightarrow> 'a) \<Rightarrow> 'a list \<Rightarrow> string \<Rightarrow> 'a list" where
  "map_modify key f [] k = []"
| "map_modify key f (x # xs) k =
     (if key x = k then f x # xs else x # map_modify key f xs k)"

subsection \<open>Entity factory and geometry\<close>

text \<open>\<^verbatim>\<open>randInField\<close> followed by \<^verbatim>\<open>uuidv4\<close>, as \<^verbatim>\<open>createBall\<close> calls them.\<close>

definition randInField :: "env \<Rightarrow> nat \<Rightarrow> num \<times> num" where
  "randInField env r =
     (Num (Math_random env r) * Num WORLD_WIDTH - Num WORLD_WIDTH / Num 2,
      Num (Math_random env (r + 1)) * Num WORLD_HEIGHT - Num WORLD_HEIGHT / Num 2)"

definition createBall :: "env \<Rightarrow> state \<Rightarrow> ball \<times> state" where
  "createBall env s =
     (let pos = randInField env (randomCalls s) in
      (\<lparr>b_id = uuidv4 env (uuidCalls s), b_x = fst pos, b_y = snd pos, carriedBy = None\<rparr>,
       s\<lparr>uuidCalls := uuidCalls s + 1, randomCalls := randomCalls s + 2\<rparr>))"

definition createPlayer :: "string \<Rightarrow> string \<Rightarrow> player" where
  "createPlayer i t =
     \<lparr>p_id = i, team = t,
      p_x = (if t = ''left'' then Num (- WORLD_WIDTH) / Num 2 + Num 40
             else Num WORLD_WIDTH / Num 2 - Num 40),
      p_y = Num 0, dirX = Num 0, dirY = Num 0, score = 0, carryingBallId = None\<rparr>"

definition isInGoal :: "string \<Rightarrow> num \<Rightarrow> num \<Rightarrow> bool" where
  "isInGoal t x y =
     (if t = ''left''
      then js_lt x (Num (- WORLD_WIDTH) / Num 2 + Num GOAL_DEPTH)
           \<and> js_lt (Math_abs y) (Num GOAL_WIDTH / Num 2)
      else js_gt x (Num WORLD_WIDTH / Num 2 - Num GOAL_DEPTH)
           \<and> js_lt (Math_abs y) (Num GOAL_WIDTH / Num 2))"

definition dist2 :: "num \<Rightarrow> num \<Rightarrow> num \<Rightarrow> num \<Rightarrow> num" where
  "dist2 x1 y1 x2 y2 = (let dx = x1 - x2; dy = y1 - y2 in dx * dx + dy * dy)"

subsection \<open>The tick: movement, carried-ball follow, scoring\<close>

text \<open>Lines 1377 to 1388: normalise the direction, step, clamp.\<close>

definition move :: "player \<Rightarrow> player" where
  "move p =
     (if ne0 (dirX p) \<or> ne0 (dirY p) then
        let mag = Math_sqrt (dirX p * dirX p + dirY p * dirY p);
            nx = dirX p / mag;
            ny = dirY p / mag;
            x1 = p_x p + nx * Num PLAYER_SPEED;
            y1 = p_y p + ny * Num PLAYER_SPEED
        in p\<lparr>p_x := Math_max (Num (- WORLD_WIDTH) / Num 2 + Num PLAYER_RADIUS)
                      (Math_min (Num WORLD_WIDTH / Num 2 - Num PLAYER_RADIUS) x1),
             p_y := Math_max (Num (- WORLD_HEIGHT) / Num 2 + Num PLAYER_RADIUS)
                      (Math_min (Num WORLD_HEIGHT / Num 2 - Num PLAYER_RADIUS) y1)\<rparr>
      else p)"

text \<open>Lines 1391 to 1397: a carried ball follows its carrier.\<close>

definition follow :: "player \<Rightarrow> ball list \<Rightarrow> ball list" where
  "follow p bs =
     (case carryingBallId p of
        None \<Rightarrow> bs
      | Some k \<Rightarrow>
          if k = [] then bs
          else (case map_get b_id bs k of
                  None \<Rightarrow> bs
                | Some _ \<Rightarrow> map_modify b_id (\<lambda>b. b\<lparr>b_x := p_x p, b_y := p_y p\<rparr>) bs k))"

text \<open>
  Lines 1400 to 1412: the score and the player's side of the carry change whether or
  not the ball is still in the map; the ball is replaced only when it is.
\<close>

definition score_goal :: "env \<Rightarrow> player \<Rightarrow> state \<Rightarrow> player \<times> state" where
  "score_goal env p s =
     (case carryingBallId p of
        None \<Rightarrow> (p, s)
      | Some scoredBallId \<Rightarrow>
          if scoredBallId \<noteq> [] \<and> isInGoal (team p) (p_x p) (p_y p) then
            (p\<lparr>score := score p + 1, carryingBallId := None\<rparr>,
             case map_get b_id (balls s) scoredBallId of
               None \<Rightarrow> s
             | Some oldBall \<Rightarrow>
                 (case createBall env (s\<lparr>balls := map_delete b_id (balls s) scoredBallId\<rparr>) of
                    (newBall, s') \<Rightarrow> s'\<lparr>balls := map_set b_id (balls s') newBall\<rparr>))
          else (p, s))"

definition player_tick :: "env \<Rightarrow> player \<Rightarrow> state \<Rightarrow> player \<times> state" where
  "player_tick env p s =
     (let p1 = move p in score_goal env p1 (s\<lparr>balls := follow p1 (balls s)\<rparr>))"

text \<open>
  The first loop of \<^verbatim>\<open>update\<close>. Its body reads and writes one player and the ball
  map, never another player, so the players are rebuilt one by one while the rest of
  the state is threaded through.
\<close>

fun move_loop :: "env \<Rightarrow> player list \<Rightarrow> state \<Rightarrow> player list \<times> state" where
  "move_loop env [] s = ([], s)"
| "move_loop env (p # ps) s =
     (case player_tick env p s of
        (p', s1) \<Rightarrow> (case move_loop env ps s1 of (ps', s2) \<Rightarrow> (p' # ps', s2)))"

subsection \<open>The tick: pickup\<close>

definition pickupRange :: num where
  "pickupRange = (Num PLAYER_RADIUS + Num BALL_RADIUS) * (Num PLAYER_RADIUS + Num BALL_RADIUS)"

text \<open>
  Lines 1418 to 1428, the scan of one player over the balls: a carried ball is skipped,
  the first ball in range is taken and the scan stops. The result is the ball map and
  the id of the ball taken, if any.
\<close>

fun scan_balls :: "player \<Rightarrow> ball list \<Rightarrow> ball list \<times> string option" where
  "scan_balls p [] = ([], None)"
| "scan_balls p (b # bs) =
     (if truthy (carriedBy b) then
        (case scan_balls p bs of (bs', r) \<Rightarrow> (b # bs', r))
      else if js_lt (dist2 (p_x p) (p_y p) (b_x b) (b_y b)) pickupRange then
        (b\<lparr>carriedBy := Some (p_id p)\<rparr> # bs, Some (b_id b))
      else
        (case scan_balls p bs of (bs', r) \<Rightarrow> (b # bs', r)))"

definition pickup_body :: "player \<Rightarrow> ball list \<Rightarrow> player \<times> ball list" where
  "pickup_body p bs =
     (if truthy (carryingBallId p) then (p, bs)
      else (case scan_balls p bs of
              (bs', None) \<Rightarrow> (p, bs')
            | (bs', Some k) \<Rightarrow> (p\<lparr>carryingBallId := Some k\<rparr>, bs')))"

fun pickup_loop :: "player list \<Rightarrow> ball list \<Rightarrow> player list \<times> ball list" where
  "pickup_loop [] bs = ([], bs)"
| "pickup_loop (p # ps) bs =
     (case pickup_body p bs of
        (p', bs1) \<Rightarrow> (case pickup_loop ps bs1 of (ps', bs2) \<Rightarrow> (p' # ps', bs2)))"

subsection \<open>The tick: player-player collision\<close>

definition collisionDist2 :: num where
  "collisionDist2 = (Num PLAYER_RADIUS * Num 2) * (Num PLAYER_RADIUS * Num 2)"

text \<open>Lines 1454 to 1460 (and 1461 to 1467): a colliding player drops its ball.\<close>

definition drop_ball :: "player \<Rightarrow> ball list \<Rightarrow> player \<times> ball list" where
  "drop_ball p bs =
     (case carryingBallId p of
        None \<Rightarrow> (p, bs)
      | Some k \<Rightarrow>
          if k = [] then (p, bs)
          else (p\<lparr>carryingBallId := None\<rparr>,
                case map_get b_id bs k of
                  None \<Rightarrow> bs
                | Some _ \<Rightarrow> map_modify b_id (\<lambda>b. b\<lparr>carriedBy := None\<rparr>) bs k))"

text \<open>
  Lines 1434 to 1468 for one pair \<open>i < j\<close> of \<^verbatim>\<open>playersArray\<close>. The array holds
  the player objects themselves, so the writes are writes to the list of players.
\<close>

definition collide_pair :: "nat \<Rightarrow> nat \<Rightarrow> player list \<times> ball list \<Rightarrow> player list \<times> ball list" where
  "collide_pair i j st =
     (let ps = fst st; bs = snd st; p1 = ps ! i; p2 = ps ! j;
          d2 = dist2 (p_x p1) (p_y p1) (p_x p2) (p_y p2)
      in if js_lt d2 collisionDist2 then
           let dx = p_x p1 - p_x p2;
               dy = p_y p1 - p_y p2;
               mag = js_or (Math_sqrt (dx * dx + dy * dy)) (Num (1 / 10000));
               overlap = Math_sqrt (collisionDist2 - d2) / Num 2;
               nx = dx / mag;
               ny = dy / mag;
               p1a = p1\<lparr>p_x := p_x p1 + nx * overlap, p_y := p_y p1 + ny * overlap\<rparr>;
               p2a = p2\<lparr>p_x := p_x p2 - nx * overlap, p_y := p_y p2 - ny * overlap\<rparr>
           in (case drop_ball p1a bs of
                 (p1b, bs1) \<Rightarrow>
                   (case drop_ball p2a bs1 of
                      (p2b, bs2) \<Rightarrow> (ps[i := p1b, j := p2b], bs2)))
         else st)"

text \<open>The two \<^verbatim>\<open>for\<close> loops over \<open>i\<close> and \<open>j\<close>; \<open>n\<close> is \<^verbatim>\<open>playersArray.length\<close>.\<close>

function collide_inner ::
  "nat \<Rightarrow> nat \<Rightarrow> nat \<Rightarrow> player list \<times> ball list \<Rightarrow> player list \<times> ball list" where
  "collide_inner n i j st =
     (if j < n then collide_inner n i (j + 1) (collide_pair i j st) else st)"
  by pat_completeness auto
termination
  by (relation "measure (\<lambda>(n, i, j, st). n - j)") auto

function collide_outer ::
  "nat \<Rightarrow> nat \<Rightarrow> player list \<times> ball list \<Rightarrow> player list \<times> ball list" where
  "collide_outer n i st =
     (if i < n then collide_outer n (i + 1) (collide_inner n i (i + 1) st) else st)"
  by pat_completeness auto
termination
  by (relation "measure (\<lambda>(n, i, st). n - i)") auto

declare collide_inner.simps [simp del]
declare collide_outer.simps [simp del]

subsection \<open>The tick and its snapshot\<close>

definition update :: "env \<Rightarrow> state \<Rightarrow> state" where
  "update env s =
     (case move_loop env (players s) s of
        (ps1, s1) \<Rightarrow>
          (case pickup_loop ps1 (balls s1) of
             (ps2, bs2) \<Rightarrow>
               (case collide_outer (length ps2) 0 (ps2, bs2) of
                  (ps3, bs3) \<Rightarrow> s1\<lparr>players := ps3, balls := bs3\<rparr>)))"

text \<open>The payload that \<^verbatim>\<open>broadcastState\<close> serialises: the fields it copies, in order.\<close>

record payload =
  pl_players :: "(string \<times> string \<times> num \<times> num \<times> int) list"
  pl_balls :: "(string \<times> num \<times> num \<times> string option) list"

definition broadcastState :: "state \<Rightarrow> payload" where
  "broadcastState s =
     \<lparr>pl_players = map (\<lambda>p. (p_id p, team p, p_x p, p_y p, score p)) (players s),
      pl_balls = map (\<lambda>b. (b_id b, b_x b, b_y b, carriedBy b)) (balls s)\<rparr>"

subsection \<open>Start-up and the connection handlers\<close>

text \<open>Lines 1360 to 1368: two empty maps, then \<^verbatim>\<open>BALL_COUNT\<close> balls.\<close>

definition empty_state :: state where
  "empty_state = \<lparr>players = [], balls = [], nextTeamIndex = 0, uuidCalls = 0, randomCalls = 0\<rparr>"

function init_balls :: "env \<Rightarrow> nat \<Rightarrow> state \<Rightarrow> state" where
  "init_balls env i s =
     (if i < BALL_COUNT then
        init_balls env (i + 1)
          (case createBall env s of (ball, s') \<Rightarrow> s'\<lparr>balls := map_set b_id (balls s') ball\<rparr>)
      else s)"
  by pat_completeness auto
termination
  by (relation "measure (\<lambda>(env, i, s). BALL_COUNT - i)") auto

declare init_balls.simps [simp del]

definition startup :: "env \<Rightarrow> state" where
  "startup env = init_balls env 0 empty_state"

text \<open>
  Lines 1517 to 1526: the team by round robin, a new id, the player stored under it.
  The \<^verbatim>\<open>init\<close> message sent back carries that id and team.
\<close>

definition on_connection :: "env \<Rightarrow> state \<Rightarrow> state" where
  "on_connection env s =
     (let t = TEAMS ! (nextTeamIndex s mod length TEAMS);
          i = uuidv4 env (uuidCalls s)
      in s\<lparr>players := map_set p_id (players s) (createPlayer i t),
           nextTeamIndex := nextTeamIndex s + 1,
           uuidCalls := uuidCalls s + 1\<rparr>)"

text \<open>
  What \<^verbatim>\<open>JSON.parse(data)\<close> can give the message handler: an exception, \<^verbatim>\<open>null\<close>
  (reading \<^verbatim>\<open>msg.type\<close> then throws), or a value whose properties \<^verbatim>\<open>type\<close>,
  \<^verbatim>\<open>x\<close> and \<^verbatim>\<open>y\<close> are read; an absent property reads as \<^verbatim>\<open>undefined\<close>, and
  so does every property of a number, string, boolean or array. Property values that
  are themselves arrays or objects are left out of \<open>jsval\<close>.
\<close>

datatype jsval = JUndefined | JNull | JBool bool | JNumber real | JString string

datatype inbound = Unparsable | ParsedNull | Parsed jsval jsval jsval

text \<open>The conversion that \<^verbatim>\<open>Math.min\<close> applies to its arguments.\<close>

fun ToNumber :: "env \<Rightarrow> jsval \<Rightarrow> num" where
  "ToNumber env JUndefined = NaN"
| "ToNumber env JNull = Num 0"
| "ToNumber env (JBool b) = Num (if b then 1 else 0)"
| "ToNumber env (JNumber r) = Num r"
| "ToNumber env (JString s) = StringToNumber env s"

text \<open>
  Lines 1528 to 1545, for the session whose player id is \<open>i\<close>. The second component
  says whether \<^verbatim>\<open>console.error\<close> was called, that is whether an exception reached
  the \<^verbatim>\<open>catch\<close>.
\<close>

definition on_message :: "env \<Rightarrow> string \<Rightarrow> inbound \<Rightarrow> state \<Rightarrow> state \<times> bool" where
  "on_message env i data s =
     (case data of
        Unparsable \<Rightarrow> (s, True)
      | ParsedNull \<Rightarrow> (s, True)
      | Parsed t x y \<Rightarrow>
          if t = JString ''input'' then
            (case map_get p_id (players s) i of
               None \<Rightarrow> (s, False)
             | Some _ \<Rightarrow>
                 (s\<lparr>players :=
                      map_modify p_id
                        (\<lambda>p. p\<lparr>dirX := Math_max (Num (- 1)) (Math_min (Num 1) (ToNumber env x)),
                                dirY := Math_max (Num (- 1)) (Math_min (Num 1) (ToNumber env y))\<rparr>)
                        (players s) i\<rparr>,
                  False))
          else (s, False))"

text \<open>Lines 1547 to 1549.\<close>

definition on_close :: "string \<Rightarrow> state \<Rightarrow> state" where
  "on_close i s = s\<lparr>players := map_delete p_id (players s) i\<rparr>"

subsection \<open>Runs of the server\<close>

text \<open>
  Node runs each callback to completion, so a run of the server is its start-up
  followed by a sequence of events: a connection, a message or a close on the session
  of a player id, or a firing of the tick timer.
\<close>

datatype event = Connection | Message string inbound | Close string | Tick

fun step :: "env \<Rightarrow> state \<Rightarrow> event \<Rightarrow> state" where
  "step env s Connection = on_connection env s"
| "step env s (Message i data) = fst (on_message env i data s)"
| "step env s (Close i) = on_close i s"
| "step env s Tick = update env s"

fun run :: "env \<Rightarrow> state \<Rightarrow> event list \<Rightarrow> state" where
  "run env s [] = s"
| "run env s (e # es) = run env (step env s e) es"

text \<open>The payloads broadcast during a run, one for each tick, oldest first.\<close>

fun snapshots :: "env \<Rightarrow> state \<Rightarrow> event list \<Rightarrow> payload list" where
  "snapshots env s [] = []"
| "snapshots env s (Tick # es) = broadcastState (update env s) # snapshots env (update env s) es"
| "snapshots env s (e # es) = snapshots env (step env s e) es"

definition server :: "env \<Rightarrow> event list \<Rightarrow> state" where
  "server env es = run env (startup env) es"

subsection \<open>Auxiliary notions for the properties\<close>

text \<open>
  \<^verbatim>\<open>uuidv4\<close> is taken never to return the same id twice (\<open>inj (uuidv4 env)\<close>). The
  ids in the state are then told apart from the next one by where they come from:
  each is the result of an earlier call.
\<close>

definition ball_ids_drawn :: "env \<Rightarrow> state \<Rightarrow> bool" where
  "ball_ids_drawn env s \<longleftrightarrow> b_id ` set (balls s) \<subseteq> uuidv4 env ` {..<uuidCalls s}"

definition player_ids_drawn :: "env \<Rightarrow> state \<Rightarrow> bool" where
  "player_ids_drawn env s \<longleftrightarrow> p_id ` set (players s) \<subseteq> uuidv4 env ` {..<uuidCalls s}"

text \<open>The test of line 1400, made on the player as the movement of lines 1377 to 1388 leaves it.\<close>

definition scores :: "player \<Rightarrow> bool" where
  "scores p \<longleftrightarrow>
     truthy (carryingBallId p) \<and> isInGoal (team p) (p_x (move p)) (p_y (move p))"

text \<open>
  The two tests of lines 1419 to 1422 that a ball passes to be picked up by a player.
\<close>

definition eligible :: "player \<Rightarrow> ball \<Rightarrow> bool" where
  "eligible p b \<longleftrightarrow>
     \<not> truthy (carriedBy b) \<and> js_lt (dist2 (p_x p) (p_y p) (b_x b) (b_y b)) pickupRange"

text \<open>
  The carry relation as a bijection between the carrying players and the carried
  balls: a ball names a player exactly when that player names the ball, every carried
  ball has its carrier among the players, every carrying player has its ball among
  the balls, and no two players carry the same ball.
\<close>

definition carry_bijection :: "state \<Rightarrow> bool" where
  "carry_bijection s \<longleftrightarrow>
     (\<forall>b\<in>set (balls s). \<forall>p\<in>set (players s).
        carriedBy b = Some (p_id p) \<longleftrightarrow> carryingBallId p = Some (b_id b))
     \<and> (\<forall>b\<in>set (balls s). carriedBy b \<noteq> None \<longrightarrow>
          (\<exists>p\<in>set (players s). carriedBy b = Some (p_id p)))
     \<and> (\<forall>p\<in>set (players s). carryingBallId p \<noteq> None \<longrightarrow>
          (\<exists>b\<in>set (balls s). carryingBallId p = Some (b_id b)))
     \<and> (\<forall>p\<in>set (players s). \<forall>q\<in>set (players s).
          carryingBallId p \<noteq> None \<and> carryingBallId p = carryingBallId q \<longrightarrow> p = q)"

text \<open>
  The two halves of that relation on a list of players and a list of balls. The first:
  player ids and ball ids are distinct and not the empty string, and the ball that a
  player names is among the balls and names that player. The second: the player that
  a ball names is among the players and names that ball.
\<close>

definition carry_wf :: "player list \<Rightarrow> ball list \<Rightarrow> bool" where
  "carry_wf ps bs \<longleftrightarrow>
     distinct (map p_id ps) \<and> distinct (map b_id bs)
     \<and> (\<forall>p\<in>set ps. p_id p \<noteq> []) \<and> (\<forall>b\<in>set bs. b_id b \<noteq> [])
     \<and> (\<forall>p\<in>set ps. \<forall>k. carryingBallId p = Some k \<longrightarrow>
          (\<exists>b\<in>set bs. b_id b = k \<and> carriedBy b = Some (p_id p)))"

definition all_held :: "player list \<Rightarrow> ball list \<Rightarrow> bool" where
  "all_held ps bs \<longleftrightarrow>
     (\<forall>b\<in>set bs. \<forall>i. carriedBy b = Some i \<longrightarrow>
        (\<exists>p\<in>set ps. p_id p = i \<and> carryingBallId p = Some (b_id b)))"

text \<open>
  Two environments give the same first \<open>u\<close> ids and the same first \<open>r\<close> random
  numbers, and convert strings alike.
\<close>

definition same_draws :: "env \<Rightarrow> env \<Rightarrow> nat \<Rightarrow> nat \<Rightarrow> bool" where
  "same_draws e1 e2 u r \<longleftrightarrow>
     (\<forall>k<u. uuidv4 e1 k = uuidv4 e2 k) \<and> (\<forall>k<r. Math_random e1 k = Math_random e2 k)
     \<and> StringToNumber e1 = StringToNumber e2"

text \<open>What a run keeps true of its players.\<close>

definition players_ok :: "env \<Rightarrow> state \<Rightarrow> bool" where
  "players_ok env s \<longleftrightarrow>
     player_ids_drawn env s \<and> distinct (map p_id (players s))
     \<and> list_all (\<lambda>p. 0 \<le> score p) (players s)"

text \<open>
  The pairs of indices below \<open>n\<close> that the two loops of the collision step visit,
  in the order in which they visit them.
\<close>

definition collision_pairs :: "nat \<Rightarrow> (nat \<times> nat) list" where
  "collision_pairs n = concat (map (\<lambda>i. map (\<lambda>j. (i, j)) [i + 1..<n]) [0..<n])"

subsection \<open>A concrete environment\<close>

text \<open>
  Ids \<open>u\<close>, \<open>uu\<close>, \<open>uuu\<close>, ...; the first ball lands on the spawn point of the left
  team, \<open>(-360, 0)\<close>, every later one on the centre of the field.
\<close>

definition demo_uuid :: "nat \<Rightarrow> string" where
  "demo_uuid k = replicate (Suc k) (CHR ''u'')"

definition demo_env :: env where
  "demo_env =
     \<lparr>uuidv4 = demo_uuid,
      Math_random = (\<lambda>k. if k = 0 then 1 / 20 else 1 / 2),
      StringToNumber = (\<lambda>_. NaN)\<rparr>"

text \<open>
  The first player of that environment, told to walk left, and the state in which it
  carries the first ball at \<open>(x, 0)\<close>.
\<close>

definition demo_input :: event where
  "demo_input = Message ''uuuuuu'' (Parsed (JString ''input'') (JNumber (- 1)) (JNumber 0))"

definition demo_rest :: "ball list" where
  "demo_rest =
     [\<lparr>b_id = ''uu'', b_x = Num 0, b_y = Num 0, carriedBy = None\<rparr>,
      \<lparr>b_id = ''uuu'', b_x = Num 0, b_y = Num 0, carriedBy = None\<rparr>,
      \<lparr>b_id = ''uuuu'', b_x = Num 0, b_y = Num 0, carriedBy = None\<rparr>,
      \<lparr>b_id = ''uuuuu'', b_x = Num 0, b_y = Num 0, carriedBy = None\<rparr>]"

definition demo_carrier :: "real \<Rightarrow> state" where
  "demo_carrier x =
     \<lparr>players =
        [\<lparr>p_id = ''uuuuuu'', team = ''left'', p_x = Num x, p_y = Num 0, dirX = Num (- 1),
          dirY = Num 0, score = 0, carryingBallId = Some ''u''\<rparr>],
      balls = \<lparr>b_id = ''u'', b_x = Num x, b_y = Num 0, carriedBy = Some ''uuuuuu''\<rparr> # demo_rest,
      nextTeamIndex = 1, uuidCalls = 6, randomCalls = 10\<rparr>"

text \<open>
  A second environment, in which the first two balls land on the spawn point of the
  left team, and its state once three players have joined: two of them on that point.
\<close>

definition twin_env :: env where
  "twin_env =
     \<lparr>uuidv4 = demo_uuid,
      Math_random = (\<lambda>k. if k = 0 \<or> k = 2 then 1 / 20 else 1 / 2),
      StringToNumber = (\<lambda>_. NaN)\<rparr>"

definition twin_state :: state where
  "twin_state =
     \<lparr>players =
        [\<lparr>p_id = ''uuuuuu'', team = ''left'', p_x = Num (- 360), p_y = Num 0, dirX = Num 0,
          dirY = Num 0, score = 0, carryingBallId = None\<rparr>,
         \<lparr>p_id = ''uuuuuuu'', team = ''right'', p_x = Num 360, p_y = Num 0, dirX = Num 0,
          dirY = Num 0, score = 0, carryingBallId = None\<rparr>,
         \<lparr>p_id = ''uuuuuuuu'', team = ''left'', p_x = Num (- 360), p_y = Num 0, dirX = Num 0,
          dirY = Num 0, score = 0, carryingBallId = None\<rparr>],
      balls =
        [\<lparr>b_id = ''u'', b_x = Num (- 360), b_y = Num 0, carriedBy = None\<rparr>,
         \<lparr>b_id = ''uu'', b_x = Num (- 360), b_y = Num 0, carriedBy = None\<rparr>,
         \<lparr>b_id = ''uuu'', b_x = Num 0, b_y = Num 0, carriedBy = None\<rparr>,
         \<lparr>b_id = ''uuuu'', b_x = Num 0, b_y = Num 0, carriedBy = None\<rparr>,
         \<lparr>b_id = ''uuuuu'', b_x = Num 0, b_y = Num 0, carriedBy = None\<rparr>],
      nextTeamIndex = 3, uuidCalls = 8, randomCalls = 10\<rparr>"

text \<open>The first environment again, with other random numbers from the eleventh on.\<close>

definition late_env :: env where
  "late_env = demo_env\<lparr>Math_random := (\<lambda>k. if k = 0 then 1 / 20 else if k < 10 then 1 / 2 else 0)\<rparr>"

text \<open>
  A third environment, in which every ball lands on the centre of the field, and the
  states of a run in it: one player walking left at \<open>(x, 0)\<close>, then three
  players, the first at \<open>(a, 0)\<close> and the third at \<open>(x, 0)\<close>, both walking left.
  In \<open>wall_run\<close> the first player walks to the left wall; two more join, and
  the third walks towards the first until they are about to touch.
\<close>

definition centre_env :: env where
  "centre_env = \<lparr>uuidv4 = demo_uuid, Math_random = (\<lambda>k. 1 / 2), StringToNumber = (\<lambda>_. NaN)\<rparr>"

definition walk_left :: "string \<Rightarrow> event" where
  "walk_left i = Message i (Parsed (JString ''input'') (JNumber (- 1)) (JNumber 0))"

definition centre_balls :: "ball list" where
  "centre_balls =
     [\<lparr>b_id = ''u'', b_x = Num 0, b_y = Num 0, carriedBy = None\<rparr>,
      \<lparr>b_id = ''uu'', b_x = Num 0, b_y = Num 0, carriedBy = None\<rparr>,
      \<lparr>b_id = ''uuu'', b_x = Num 0, b_y = Num 0, carriedBy = None\<rparr>,
      \<lparr>b_id = ''uuuu'', b_x = Num 0, b_y = Num 0, carriedBy = None\<rparr>,
      \<lparr>b_id = ''uuuuu'', b_x = Num 0, b_y = Num 0, carriedBy = None\<rparr>]"

definition alone :: "real \<Rightarrow> state" where
  "alone x =
     \<lparr>players =
        [\<lparr>p_id = ''uuuuuu'', team = ''left'', p_x = Num x, p_y = Num 0, dirX = Num (- 1),
          dirY = Num 0, score = 0, carryingBallId = None\<rparr>],
      balls = centre_balls, nextTeamIndex = 1, uuidCalls = 6, randomCalls = 10\<rparr>"

definition crowd :: "real \<Rightarrow> real \<Rightarrow> state" where
  "crowd a x =
     \<lparr>players =
        [\<lparr>p_id = ''uuuuuu'', team = ''left'', p_x = Num a, p_y = Num 0, dirX = Num (- 1),
          dirY = Num 0, score = 0, carryingBallId = None\<rparr>,
         \<lparr>p_id = ''uuuuuuu'', team = ''right'', p_x = Num 360, p_y = Num 0, dirX = Num 0,
          dirY = Num 0, score = 0, carryingBallId = None\<rparr>,
         \<lparr>p_id = ''uuuuuuuu'', team = ''left'', p_x = Num x, p_y = Num 0, dirX = Num (- 1),
          dirY = Num 0, score = 0, carryingBallId = None\<rparr>],
      balls = centre_balls, nextTeamIndex = 3, uuidCalls = 8, randomCalls = 10\<rparr>"

definition wall_run :: "event list" where
  "wall_run =
     [Connection, walk_left ''uuuuuu''] @ replicate 12 Tick
     @ [Connection, Connection, walk_left ''uuuuuuuu''] @ replicate 8 Tick"



text \<open>Three players on a line, the second 6 units from the first and 10 from the third.\<close>

definition trio :: "player list" where
  "trio =
     [\<lparr>p_id = ''a'', team = ''left'', p_x = Num 100, p_y = Num 0, dirX = Num 0,
       dirY = Num 0, score = 0, carryingBallId = None\<rparr>,
      \<lparr>p_id = ''b'', team = ''right'', p_x = Num 106, p_y = Num 0, dirX = Num 0,
       dirY = Num 0, score = 0, carryingBallId = None\<rparr>,
      \<lparr>p_id = ''c'', team = ''left'', p_x = Num 116, p_y = Num 0, dirX = Num 0,
       dirY = Num 0, score = 0, carryingBallId = None\<rparr>]"

text \<open>
  A fourth environment, in which the first ball lands inside the left goal area, at
  \<open>(-387.5, 0)\<close>. A left player walks left from its spawn point (\<open>scout\<close>), reaches
  \<open>(-381, 0)\<close> on the seventh tick and picks the ball up there; it is then told to
  walk right (\<open>goal_run\<close>).
\<close>

definition goal_env :: env where
  "goal_env =
     \<lparr>uuidv4 = demo_uuid,
      Math_random = (\<lambda>k. if k = 0 then 1 / 64 else 1 / 2),
      StringToNumber = (\<lambda>_. NaN)\<rparr>"

definition walk_right :: "string \<Rightarrow> event" where
  "walk_right i = Message i (Parsed (JString ''input'') (JNumber 1) (JNumber 0))"

definition scout :: "real \<Rightarrow> state" where
  "scout x =
     \<lparr>players =
        [\<lparr>p_id = ''uuuuuu'', team = ''left'', p_x = Num x, p_y = Num 0, dirX = Num (- 1),
          dirY = Num 0, score = 0, carryingBallId = None\<rparr>],
      balls = \<lparr>b_id = ''u'', b_x = Num (- 775 / 2), b_y = Num 0, carriedBy = None\<rparr> # demo_rest,
      nextTeamIndex = 1, uuidCalls = 6, randomCalls = 10\<rparr>"

definition in_goal_carrier :: "real \<Rightarrow> real \<Rightarrow> real \<Rightarrow> state" where
  "in_goal_carrier x d bx =
     \<lparr>players =
        [\<lparr>p_id = ''uuuuuu'', team = ''left'', p_x = Num x, p_y = Num 0, dirX = Num d,
          dirY = Num 0, score = 0, carryingBallId = Some ''u''\<rparr>],
      balls = \<lparr>b_id = ''u'', b_x = Num bx, b_y = Num 0, carriedBy = Some ''uuuuuu''\<rparr> # demo_rest,
      nextTeamIndex = 1, uuidCalls = 6, randomCalls = 10\<rparr>"

definition goal_run :: "event list" where
  "goal_run = [Connection, walk_left ''uuuuuu''] @ replicate 7 Tick @ [walk_right ''uuuuuu'']"
section \<open>Properties\<close>

lemmas config_defs =
  WORLD_WIDTH_def WORLD_HEIGHT_def PLAYER_SPEED_def BALL_RADIUS_def PLAYER_RADIUS_def
  BALL_COUNT_def GOAL_WIDTH_def GOAL_DEPTH_def TEAMS_def

subsection \<open>Map operations\<close>

lemma map_get_None_iff: "map_get key xs k = None \<longleftrightarrow> k \<notin> key ` set xs"
  by (induction xs) (auto simp: map_get_def)

lemma map_get_SomeD: "map_get key xs k = Some x \<Longrightarrow> x \<in> set xs \<and> key x = k"
  by (induction xs) (auto simp: map_get_def split: if_splits)

lemma map_get_Some_iff_distinct:
  "distinct (map key xs) \<Longrightarrow> map_get key xs k = Some x \<longleftrightarrow> x \<in> set xs \<and> key x = k"
  by (induction xs) (auto simp: map_get_def)

lemma keys_map_set: "key ` set (map_set key xs v) = insert (key v) (key ` set xs)"
  by (induction xs) auto

lemma length_map_set:
  "length (map_set key xs v) = (if key v \<in> key ` set xs then length xs else Suc (length xs))"
  by (induction xs) auto

lemma map_set_fresh: "key v \<notin> key ` set xs \<Longrightarrow> map_set key xs v = xs @ [v]"
  by (induction xs) auto

lemma keys_map_delete_subset: "key ` set (map_delete key xs k) \<subseteq> key ` set xs"
  by (induction xs) auto

lemma set_map_delete_subset: "set (map_delete key xs k) \<subseteq> set xs"
  by (induction xs) auto

lemma length_map_delete:
  "length (map_delete key xs k) = (if k \<in> key ` set xs then length xs - 1 else length xs)"
proof (induction xs)
  case (Cons x xs)
  have "y \<in> set xs \<Longrightarrow> Suc (length xs - Suc 0) = length xs" for y
    by (cases xs) auto
  with Cons show ?case by auto
qed simp

lemma keys_map_delete_distinct:
  "distinct (map key xs) \<Longrightarrow> key ` set (map_delete key xs k) = key ` set xs - {k}"
proof (induction xs)
  case (Cons x xs)
  show ?case
  proof (cases "key x = k")
    case True
    with Cons.prems show ?thesis by (auto simp: image_iff)
  next
    case False
    with Cons show ?thesis by auto
  qed
qed simp

lemma distinct_map_delete: "distinct (map key xs) \<Longrightarrow> distinct (map key (map_delete key xs k))"
proof (induction xs)
  case (Cons x xs)
  then show ?case using keys_map_delete_subset [of key xs k] by auto
qed simp

lemma distinct_map_set: "distinct (map key xs) \<Longrightarrow> distinct (map key (map_set key xs v))"
  by (induction xs) (auto simp: keys_map_set)

lemma length_map_modify [simp]: "length (map_modify key f xs k) = length xs"
  by (induction xs) auto

lemma keys_map_modify:
  "(\<And>x. key (f x) = key x) \<Longrightarrow> map key (map_modify key f xs k) = map key xs"
  by (induction xs) auto

lemma map_modify_absent: "k \<notin> key ` set xs \<Longrightarrow> map_modify key f xs k = xs"
  by (induction xs) auto


subsection \<open>Ids come from the generator\<close>

lemma fresh_uuid:
  assumes "inj (uuidv4 env)" and "A \<subseteq> uuidv4 env ` {..<n}"
  shows "uuidv4 env n \<notin> A"
proof
  assume "uuidv4 env n \<in> A"
  with assms(2) obtain k where "k < n" and "uuidv4 env n = uuidv4 env k" by auto
  with assms(1) show False by (auto dest: injD)
qed

lemma drawn_mono: "A \<subseteq> uuidv4 env ` {..<n} \<Longrightarrow> n \<le> m \<Longrightarrow> A \<subseteq> uuidv4 env ` {..<m}"
  by (auto simp: image_iff) (meson order_less_le_trans subsetD imageE lessThan_iff)

lemma createBall_fst:
  "fst (createBall env s) =
     \<lparr>b_id = uuidv4 env (uuidCalls s), b_x = fst (randInField env (randomCalls s)),
      b_y = snd (randInField env (randomCalls s)), carriedBy = None\<rparr>"
  by (simp add: createBall_def Let_def)

lemma createBall_snd:
  "snd (createBall env s) = s\<lparr>uuidCalls := uuidCalls s + 1, randomCalls := randomCalls s + 2\<rparr>"
  by (simp add: createBall_def Let_def)

lemma follow_ids [simp]: "map b_id (follow p bs) = map b_id bs"
  by (simp add: follow_def keys_map_modify split: option.splits)

lemma follow_length [simp]: "length (follow p bs) = length bs"
  by (simp add: follow_def split: option.splits)

lemma score_goal_frame:
  assumes "score_goal env p s = (p', s')"
  shows "players s' = players s" and "nextTeamIndex s' = nextTeamIndex s"
    and "uuidCalls s \<le> uuidCalls s'" and "randomCalls s \<le> randomCalls s'"
  using assms
  by (auto simp: score_goal_def createBall_def Let_def split: option.splits if_splits)

lemma score_goal_balls:
  assumes inj: "inj (uuidv4 env)" and drawn: "ball_ids_drawn env s"
    and run: "score_goal env p s = (p', s')"
  shows "length (balls s') = length (balls s)" and "ball_ids_drawn env s'"
proof -
  have fresh: "uuidv4 env (uuidCalls s) \<notin> b_id ` set (balls s)"
    using fresh_uuid [OF inj] drawn by (simp add: ball_ids_drawn_def)
  have sub: "b_id ` set (map_delete b_id (balls s) k) \<subseteq> b_id ` set (balls s)" for k
    by (rule keys_map_delete_subset)
  have fresh': "uuidv4 env (uuidCalls s) \<notin> b_id ` set (map_delete b_id (balls s) k)" for k
    using fresh sub [of k] by blast
  have pos: "b \<in> set (balls s) \<Longrightarrow> Suc (length (balls s) - Suc 0) = length (balls s)" for b
    by (cases "balls s") auto
  show "length (balls s') = length (balls s)"
    using run fresh' pos
    by (auto simp: score_goal_def createBall_def Let_def length_map_set length_map_delete
          map_get_None_iff
        split: option.splits if_splits dest!: map_get_SomeD)
  show "ball_ids_drawn env s'"
  proof (cases "\<exists>k b. carryingBallId p = Some k \<and> k \<noteq> [] \<and> isInGoal (team p) (p_x p) (p_y p)
                  \<and> map_get b_id (balls s) k = Some b")
    case True
    then obtain k b where k: "carryingBallId p = Some k" "k \<noteq> []"
      "isInGoal (team p) (p_x p) (p_y p)" "map_get b_id (balls s) k = Some b" by blast
    let ?nb = "fst (createBall env (s\<lparr>balls := map_delete b_id (balls s) k\<rparr>))"
    have s': "balls s' = map_set b_id (map_delete b_id (balls s) k) ?nb"
      "uuidCalls s' = Suc (uuidCalls s)"
      using run k by (auto simp: score_goal_def createBall_def Let_def)
    have "b_id ` set (balls s') = insert (uuidv4 env (uuidCalls s)) (b_id ` set (map_delete b_id (balls s) k))"
      by (simp add: s' keys_map_set createBall_fst)
    also have "\<dots> \<subseteq> insert (uuidv4 env (uuidCalls s)) (uuidv4 env ` {..<uuidCalls s})"
      using sub [of k] drawn by (auto simp: ball_ids_drawn_def)
    also have "\<dots> = uuidv4 env ` {..<uuidCalls s'}"
      by (simp add: s' lessThan_Suc)
    finally show ?thesis by (simp add: ball_ids_drawn_def)
  next
    case False
    then have "s' = s"
      using run by (auto simp: score_goal_def split: option.splits if_splits)
    with drawn show ?thesis by simp
  qed
qed


lemma ball_ids_drawn_follow:
  "ball_ids_drawn env (s\<lparr>balls := follow p (balls s)\<rparr>) = ball_ids_drawn env s"
proof -
  have "b_id ` set (follow p (balls s)) = b_id ` set (balls s)"
    by (metis follow_ids set_map)
  then show ?thesis by (simp add: ball_ids_drawn_def)
qed

lemma player_tick_frame:
  assumes "player_tick env p s = (p', s')"
  shows "players s' = players s" and "nextTeamIndex s' = nextTeamIndex s"
    and "uuidCalls s \<le> uuidCalls s'" and "randomCalls s \<le> randomCalls s'"
  using assms score_goal_frame [of env "move p" "s\<lparr>balls := follow (move p) (balls s)\<rparr>" p' s']
  by (simp_all add: player_tick_def Let_def)

lemma player_tick_balls:
  assumes "inj (uuidv4 env)" and "ball_ids_drawn env s" and "player_tick env p s = (p', s')"
  shows "length (balls s') = length (balls s)" and "ball_ids_drawn env s'"
  using assms score_goal_balls [of env "s\<lparr>balls := follow (move p) (balls s)\<rparr>" "move p" p' s']
  by (simp_all add: player_tick_def Let_def ball_ids_drawn_follow)

lemma move_loop_frame:
  "move_loop env ps s = (ps', s') \<Longrightarrow>
     players s' = players s \<and> nextTeamIndex s' = nextTeamIndex s
     \<and> uuidCalls s \<le> uuidCalls s' \<and> randomCalls s \<le> randomCalls s'"
proof (induction ps arbitrary: s ps' s')
  case Nil
  then show ?case by simp
next
  case (Cons p ps)
  obtain p1 s1 where t: "player_tick env p s = (p1, s1)" by (cases "player_tick env p s")
  obtain ps2 s2 where l: "move_loop env ps s1 = (ps2, s2)" by (cases "move_loop env ps s1")
  from Cons.prems t l have "s' = s2" by simp
  with Cons.IH [OF l] player_tick_frame [OF t] show ?case by simp
qed

lemma move_loop_balls:
  "inj (uuidv4 env) \<Longrightarrow> ball_ids_drawn env s \<Longrightarrow> move_loop env ps s = (ps', s') \<Longrightarrow>
     length (balls s') = length (balls s) \<and> ball_ids_drawn env s'"
proof (induction ps arbitrary: s ps' s')
  case Nil
  then show ?case by simp
next
  case (Cons p ps)
  obtain p1 s1 where t: "player_tick env p s = (p1, s1)" by (cases "player_tick env p s")
  obtain ps2 s2 where l: "move_loop env ps s1 = (ps2, s2)" by (cases "move_loop env ps s1")
  from Cons.prems t l have "s' = s2" by simp
  with Cons.IH [OF Cons.prems(1) _ l] player_tick_balls [OF Cons.prems(1,2) t]
  show ?case by simp
qed

text \<open>What the first loop does to a player does not depend on the balls.\<close>

lemma move_facts [simp]:
  "p_id (move p) = p_id p" "team (move p) = team p" "score (move p) = score p"
  "carryingBallId (move p) = carryingBallId p" "dirX (move p) = dirX p" "dirY (move p) = dirY p"
  by (simp_all add: move_def Let_def)

lemma player_tick_player:
  "fst (player_tick env p s) =
     (if scores p then (move p)\<lparr>score := score p + 1, carryingBallId := None\<rparr> else move p)"
  by (auto simp: player_tick_def score_goal_def scores_def Let_def split: option.splits)

lemma move_loop_players:
  "fst (move_loop env ps s) =
     map (\<lambda>p. if scores p then (move p)\<lparr>score := score p + 1, carryingBallId := None\<rparr>
              else move p) ps"
proof (induction ps arbitrary: s)
  case Nil
  then show ?case by simp
next
  case (Cons p ps)
  show ?case
    using Cons.IH [of "snd (player_tick env p s)"] player_tick_player [of env p s]
    by (simp add: split_beta)
qed


subsection \<open>Pickup and collision change neither ids nor scores\<close>

lemma scan_balls_ids: "map b_id (fst (scan_balls p bs)) = map b_id bs"
  by (induction bs) (auto simp: split_beta)

lemma pickup_body_frame:
  "map b_id (snd (pickup_body p bs)) = map b_id bs"
  "p_id (fst (pickup_body p bs)) = p_id p"
  "score (fst (pickup_body p bs)) = score p"
  using scan_balls_ids [of p bs]
  by (auto simp: pickup_body_def split: prod.splits option.splits)

lemma pickup_loop_frame:
  "map b_id (snd (pickup_loop ps bs)) = map b_id bs
   \<and> map p_id (fst (pickup_loop ps bs)) = map p_id ps
   \<and> map score (fst (pickup_loop ps bs)) = map score ps"
proof (induction ps arbitrary: bs)
  case Nil
  then show ?case by simp
next
  case (Cons p ps)
  show ?case
    using Cons.IH [of "snd (pickup_body p bs)"] pickup_body_frame [of p bs]
    by (simp add: split_beta)
qed

lemma drop_ball_frame:
  "map b_id (snd (drop_ball p bs)) = map b_id bs"
  "p_id (fst (drop_ball p bs)) = p_id p"
  "score (fst (drop_ball p bs)) = score p"
  by (auto simp: drop_ball_def keys_map_modify split: option.splits)

lemma map_list_update_same:
  assumes "f y = f (xs ! i)"
  shows "map f (xs[i := y]) = map f xs"
proof (cases "i < length xs")
  case True
  with assms show ?thesis by (simp add: map_update list_update_same_conv)
next
  case False
  then have "xs[i := y] = xs" by (intro list_update_beyond) simp
  then show ?thesis by simp
qed

lemma collide_pair_frame:
  "map b_id (snd (collide_pair i j st)) = map b_id (snd st)
   \<and> map p_id (fst (collide_pair i j st)) = map p_id (fst st)
   \<and> map score (fst (collide_pair i j st)) = map score (fst st)"
proof (cases "i = j")
  case True
  then show ?thesis
    by (auto simp: collide_pair_def Let_def split_beta drop_ball_frame map_list_update_same)
next
  case False
  then show ?thesis
    by (auto simp: collide_pair_def Let_def split_beta drop_ball_frame map_list_update_same
        nth_list_update)
qed

lemma collide_inner_frame:
  "map b_id (snd (collide_inner n i j st)) = map b_id (snd st)
   \<and> map p_id (fst (collide_inner n i j st)) = map p_id (fst st)
   \<and> map score (fst (collide_inner n i j st)) = map score (fst st)"
proof (induction n i j st rule: collide_inner.induct)
  case (1 n i j st)
  show ?case
  proof (cases "j < n")
    case True
    with "1.IH" collide_pair_frame [of i j st] show ?thesis
      by (subst (1 2 3) collide_inner.simps) simp
  next
    case False
    then show ?thesis by (subst (1 2 3) collide_inner.simps) simp
  qed
qed

lemma collide_outer_frame:
  "map b_id (snd (collide_outer n i st)) = map b_id (snd st)
   \<and> map p_id (fst (collide_outer n i st)) = map p_id (fst st)
   \<and> map score (fst (collide_outer n i st)) = map score (fst st)"
proof (induction n i st rule: collide_outer.induct)
  case (1 n i st)
  show ?case
  proof (cases "i < n")
    case True
    with "1.IH" collide_inner_frame [of n i "i + 1" st] show ?thesis
      by (subst (1 2 3) collide_outer.simps) simp
  next
    case False
    then show ?thesis by (subst (1 2 3) collide_outer.simps) simp
  qed
qed


subsection \<open>One tick\<close>

lemma update_expand:
  "update env s =
     (let m = move_loop env (players s) s;
          pk = pickup_loop (fst m) (balls (snd m));
          c = collide_outer (length (fst pk)) 0 pk
      in (snd m)\<lparr>players := fst c, balls := snd c\<rparr>)"
  by (simp add: update_def Let_def split_beta)

lemma update_ball_ids:
  "map b_id (balls (update env s)) = map b_id (balls (snd (move_loop env (players s) s)))"
  by (simp add: update_expand Let_def collide_outer_frame pickup_loop_frame)

lemma update_counters:
  "nextTeamIndex (update env s) = nextTeamIndex s"
  "uuidCalls s \<le> uuidCalls (update env s)"
  "randomCalls s \<le> randomCalls (update env s)"
  using move_loop_frame [of env "players s" s "fst (move_loop env (players s) s)"
      "snd (move_loop env (players s) s)"]
  by (simp_all add: update_expand Let_def)

lemma update_balls:
  assumes "inj (uuidv4 env)" and "ball_ids_drawn env s"
  shows "length (balls (update env s)) = length (balls s)"
    and "ball_ids_drawn env (update env s)"
proof -
  let ?m = "move_loop env (players s) s"
  have m: "length (balls (snd ?m)) = length (balls s) \<and> ball_ids_drawn env (snd ?m)"
    using move_loop_balls [OF assms, of "players s" "fst ?m" "snd ?m"] by simp
  have ids: "map b_id (balls (update env s)) = map b_id (balls (snd ?m))"
    by (rule update_ball_ids)
  from ids have "length (balls (update env s)) = length (balls (snd ?m))"
    by (metis length_map)
  with m show "length (balls (update env s)) = length (balls s)" by simp
  from ids have "b_id ` set (balls (update env s)) = b_id ` set (balls (snd ?m))"
    by (metis set_map)
  moreover have "uuidCalls (update env s) = uuidCalls (snd ?m)"
    by (simp add: update_expand Let_def)
  ultimately show "ball_ids_drawn env (update env s)"
    using m by (simp add: ball_ids_drawn_def)
qed

lemma update_player_ids: "map p_id (players (update env s)) = map p_id (players s)"
  by (simp add: update_expand Let_def collide_outer_frame pickup_loop_frame move_loop_players
      o_def)

lemma update_scores:
  "map score (players (update env s)) =
     map (\<lambda>p. if scores p then score p + 1 else score p) (players s)"
  by (simp add: update_expand Let_def collide_outer_frame pickup_loop_frame move_loop_players
      o_def if_distrib cong: if_cong)

lemma update_players_drawn:
  assumes "player_ids_drawn env s"
  shows "player_ids_drawn env (update env s)"
proof -
  have "p_id ` set (players (update env s)) = p_id ` set (players s)"
    by (metis update_player_ids set_map)
  with assms drawn_mono [OF _ update_counters(2), of "p_id ` set (players s)" env s env]
  show ?thesis by (simp add: player_ids_drawn_def)
qed


subsection \<open>The handlers and whole runs\<close>

lemma step_balls:
  assumes "inj (uuidv4 env)" and "ball_ids_drawn env s"
  shows "length (balls (step env s e)) = length (balls s)"
    and "ball_ids_drawn env (step env s e)"
proof -
  have mono: "b_id ` set (balls s) \<subseteq> uuidv4 env ` {..<Suc (uuidCalls s)}"
    using assms(2) drawn_mono [of "b_id ` set (balls s)" env "uuidCalls s" "Suc (uuidCalls s)"]
    by (simp add: ball_ids_drawn_def)
  show "length (balls (step env s e)) = length (balls s)"
    using update_balls(1) [OF assms]
    by (cases e)
      (auto simp: on_connection_def on_message_def on_close_def Let_def
        split: inbound.splits option.splits)
  show "ball_ids_drawn env (step env s e)"
    using update_balls(2) [OF assms] assms(2) mono
    by (cases e)
      (auto simp: on_connection_def on_message_def on_close_def Let_def ball_ids_drawn_def
        split: inbound.splits option.splits)
qed

lemma run_balls:
  "inj (uuidv4 env) \<Longrightarrow> ball_ids_drawn env s \<Longrightarrow>
     length (balls (run env s es)) = length (balls s) \<and> ball_ids_drawn env (run env s es)"
proof (induction es arbitrary: s)
  case Nil
  then show ?case by simp
next
  case (Cons e es)
  from Cons.IH [OF Cons.prems(1) step_balls(2) [OF Cons.prems]]
    step_balls(1) [OF Cons.prems, of e]
  show ?case by simp
qed

lemma init_balls_count:
  "inj (uuidv4 env) \<Longrightarrow> ball_ids_drawn env s \<Longrightarrow>
     length (balls (init_balls env i s)) = length (balls s) + (BALL_COUNT - i)
     \<and> ball_ids_drawn env (init_balls env i s)"
proof (induction env i s rule: init_balls.induct)
  case (1 env i s)
  show ?case
  proof (cases "i < BALL_COUNT")
    case True
    let ?s1 = "snd (createBall env s)\<lparr>balls := map_set b_id (balls s) (fst (createBall env s))\<rparr>"
    have fresh: "uuidv4 env (uuidCalls s) \<notin> b_id ` set (balls s)"
      using fresh_uuid [OF "1.prems"(1)] "1.prems"(2) by (simp add: ball_ids_drawn_def)
    have len: "length (balls ?s1) = Suc (length (balls s))"
      using fresh by (simp add: length_map_set createBall_fst)
    have "b_id ` set (balls ?s1) = insert (uuidv4 env (uuidCalls s)) (b_id ` set (balls s))"
      by (simp add: keys_map_set createBall_fst)
    also have "\<dots> \<subseteq> uuidv4 env ` {..<Suc (uuidCalls s)}"
      using "1.prems"(2) by (auto simp: ball_ids_drawn_def lessThan_Suc)
    finally have drawn: "ball_ids_drawn env ?s1"
      by (simp add: ball_ids_drawn_def createBall_snd)
    have eq: "init_balls env i s = init_balls env (i + 1) ?s1"
      using True by (subst init_balls.simps) (simp add: split_beta createBall_snd)
    have "(case createBall env s of (ball, s') \<Rightarrow> s'\<lparr>balls := map_set b_id (balls s') ball\<rparr>) = ?s1"
      by (simp add: split_beta createBall_snd)
    with "1.IH" [OF True] "1.prems"(1) drawn
    have "length (balls (init_balls env (i + 1) ?s1)) = length (balls ?s1) + (BALL_COUNT - (i + 1))
          \<and> ball_ids_drawn env (init_balls env (i + 1) ?s1)"
      by simp
    with eq len True show ?thesis by simp
  next
    case False
    with "1.prems" show ?thesis by (subst (1 2) init_balls.simps) simp
  qed
qed

lemma startup_balls:
  assumes "inj (uuidv4 env)"
  shows "length (balls (startup env)) = BALL_COUNT" and "ball_ids_drawn env (startup env)"
  using init_balls_count [OF assms, of empty_state 0]
  by (simp_all add: startup_def ball_ids_drawn_def empty_state_def)

subsection \<open>Scores\<close>

lemma map_get_same_keys:
  "map key xs' = map key xs \<Longrightarrow> map_get key xs k = Some x \<Longrightarrow> map_get key xs' k = Some x'
     \<Longrightarrow> \<exists>n<length xs. xs ! n = x \<and> xs' ! n = x'"
proof (induction xs arbitrary: xs')
  case Nil
  then show ?case by (simp add: map_get_def)
next
  case (Cons y ys)
  from Cons.prems(1) obtain y' ys' where xs': "xs' = y' # ys'" and k: "key y' = key y"
    and rest: "map key ys' = map key ys" by (cases xs') auto
  show ?case
  proof (cases "key y = k")
    case True
    with Cons.prems xs' k have "x = y" "x' = y'" by (simp_all add: map_get_def)
    with xs' show ?thesis by auto
  next
    case False
    with Cons.prems xs' k have "map_get key ys k = Some x" "map_get key ys' k = Some x'"
      by (simp_all add: map_get_def)
    from Cons.IH [OF rest this] obtain n where "n < length ys" "ys ! n = x" "ys' ! n = x'"
      by blast
    then have "Suc n < length (y # ys) \<and> (y # ys) ! Suc n = x \<and> xs' ! Suc n = x'"
      by (simp add: xs')
    then show ?thesis by blast
  qed
qed

lemma map_get_map_set_other:
  "key v \<noteq> k \<Longrightarrow> map_get key (map_set key xs v) k = map_get key xs k"
  by (induction xs) (auto simp: map_get_def)

lemma map_get_map_delete_other:
  "k' \<noteq> k \<Longrightarrow> map_get key (map_delete key xs k') k = map_get key xs k"
  by (induction xs) (auto simp: map_get_def)

lemma map_get_map_delete_same:
  "distinct (map key xs) \<Longrightarrow> map_get key (map_delete key xs k) k = None"
  by (simp add: map_get_None_iff keys_map_delete_distinct)

lemma map_get_map_modify:
  "(\<And>x. key (f x) = key x) \<Longrightarrow>
     map_get key (map_modify key f xs k') k =
       (if k' = k then map_option f (map_get key xs k) else map_get key xs k)"
  by (induction xs) (auto simp: map_get_def)

lemma update_score_of:
  assumes "map_get p_id (players s) i = Some p"
    and "map_get p_id (players (update env s)) i = Some p'"
  shows "score p' = (if scores p then score p + 1 else score p)"
proof -
  from map_get_same_keys [OF update_player_ids assms]
  obtain n where n: "n < length (players s)" "players s ! n = p" "players (update env s) ! n = p'"
    by blast
  have len: "length (players (update env s)) = length (players s)"
    by (metis update_player_ids length_map)
  have "score p' = map score (players (update env s)) ! n"
    using n len by simp
  also have "\<dots> = (if scores p then score p + 1 else score p)"
    using n by (simp add: update_scores)
  finally show ?thesis .
qed

lemma step_score_of:
  assumes inj: "inj (uuidv4 env)" and ok: "players_ok env s"
    and p: "map_get p_id (players s) i = Some p"
    and p': "map_get p_id (players (step env s e)) i = Some p'"
  shows "score p' = (if e = Tick \<and> scores p then score p + 1 else score p)"
proof (cases e)
  case Connection
  have "i \<in> p_id ` set (players s)" using p by (auto dest: map_get_SomeD)
  moreover have "uuidv4 env (uuidCalls s) \<notin> p_id ` set (players s)"
    using fresh_uuid [OF inj] ok by (simp add: players_ok_def player_ids_drawn_def)
  ultimately have "uuidv4 env (uuidCalls s) \<noteq> i" by auto
  with p p' Connection show ?thesis
    by (simp add: on_connection_def Let_def map_get_map_set_other createPlayer_def)
next
  case (Message j data)
  with p p' show ?thesis
    by (auto simp: on_message_def map_get_map_modify split: inbound.splits option.splits if_splits)
next
  case (Close j)
  show ?thesis
  proof (cases "j = i")
    case True
    with ok p' Close show ?thesis
      by (simp add: on_close_def players_ok_def map_get_map_delete_same)
  next
    case False
    with p p' Close show ?thesis by (simp add: on_close_def map_get_map_delete_other)
  qed
next
  case Tick
  with update_score_of [OF p, of env p'] p' show ?thesis by simp
qed


lemma set_map_set_subset: "set (map_set key xs v) \<subseteq> insert v (set xs)"
  by (induction xs) auto

lemma map_modify_field:
  "(\<And>x. g (f x) = g x) \<Longrightarrow> map g (map_modify key f xs k) = map g xs"
  by (induction xs) auto

lemma on_message_frame:
  "map p_id (players (fst (on_message env j d s))) = map p_id (players s)"
  "map score (players (fst (on_message env j d s))) = map score (players s)"
  "uuidCalls (fst (on_message env j d s)) = uuidCalls s"
  "randomCalls (fst (on_message env j d s)) = randomCalls s"
  "balls (fst (on_message env j d s)) = balls s"
  by (auto simp: on_message_def map_modify_field split: inbound.splits option.splits)

lemma step_player_ids:
  "p_id ` set (players (step env s e)) \<subseteq> insert (uuidv4 env (uuidCalls s)) (p_id ` set (players s))"
proof (cases e)
  case Connection
  then show ?thesis by (simp add: on_connection_def Let_def keys_map_set createPlayer_def)
next
  case (Message j data)
  have "map p_id (players (step env s e)) = map p_id (players s)"
    using Message by (simp add: on_message_frame)
  then have "p_id ` set (players (step env s e)) = p_id ` set (players s)"
    by (metis set_map)
  then show ?thesis by auto
next
  case (Close j)
  then show ?thesis using keys_map_delete_subset [of p_id "players s" j]
    by (auto simp: on_close_def)
next
  case Tick
  have "p_id ` set (players (update env s)) = p_id ` set (players s)"
    by (metis update_player_ids set_map)
  with Tick show ?thesis by auto
qed

lemma step_uuidCalls: "uuidCalls s \<le> uuidCalls (step env s e)"
  by (cases e) (simp_all add: on_connection_def on_message_frame on_close_def update_counters Let_def)

lemma step_uuidCalls_Connection: "uuidCalls (step env s Connection) = Suc (uuidCalls s)"
  by (simp add: on_connection_def Let_def)

lemma step_players_ok:
  assumes inj: "inj (uuidv4 env)" and ok: "players_ok env s"
  shows "players_ok env (step env s e)"
proof -
  have drawn: "player_ids_drawn env (step env s e)"
  proof (cases e)
    case Connection
    have "p_id ` set (players (step env s e)) \<subseteq> insert (uuidv4 env (uuidCalls s)) (uuidv4 env ` {..<uuidCalls s})"
      using step_player_ids [of env s e] ok by (auto simp: players_ok_def player_ids_drawn_def)
    also have "\<dots> = uuidv4 env ` {..<uuidCalls (step env s e)}"
      by (simp add: Connection on_connection_def Let_def lessThan_Suc)
    finally show ?thesis by (simp add: player_ids_drawn_def)
  next
    case (Message j data)
    have "map p_id (players (step env s e)) = map p_id (players s)"
      using Message by (simp add: on_message_frame)
    then have "p_id ` set (players (step env s e)) = p_id ` set (players s)"
      by (metis set_map)
    moreover have "uuidCalls (step env s e) = uuidCalls s"
      using Message by (simp add: on_message_frame)
    ultimately show ?thesis using ok by (simp add: players_ok_def player_ids_drawn_def)
  next
    case (Close j)
    then show ?thesis using keys_map_delete_subset [of p_id "players s" j] ok
      by (auto simp: on_close_def players_ok_def player_ids_drawn_def)
  next
    case Tick
    with update_players_drawn [of env s] ok show ?thesis by (simp add: players_ok_def)
  qed
  have dist: "distinct (map p_id (players (step env s e)))"
  proof (cases e)
    case Connection
    with ok show ?thesis by (simp add: on_connection_def Let_def distinct_map_set players_ok_def)
  next
    case (Message j data)
    with ok show ?thesis by (simp add: on_message_frame players_ok_def)
  next
    case (Close j)
    with ok show ?thesis by (simp add: on_close_def distinct_map_delete players_ok_def)
  next
    case Tick
    with ok show ?thesis by (simp add: update_player_ids players_ok_def)
  qed
  have nonneg: "list_all (\<lambda>p. 0 \<le> score p) (players (step env s e))"
    unfolding list_all_iff
  proof
    fix q assume q: "q \<in> set (players (step env s e))"
    have d: "distinct (map p_id (players (step env s e)))" by (rule dist)
    from q d have g: "map_get p_id (players (step env s e)) (p_id q) = Some q"
      by (simp add: map_get_Some_iff_distinct)
    show "0 \<le> score q"
    proof (cases "map_get p_id (players s) (p_id q)")
      case None
      then have new: "p_id q \<notin> p_id ` set (players s)" by (simp add: map_get_None_iff)
      have "e = Connection"
      proof (rule ccontr)
        assume "e \<noteq> Connection"
        then have "p_id ` set (players (step env s e)) \<subseteq> p_id ` set (players s)"
        proof (cases e)
          case (Message j data)
          have "map p_id (players (step env s e)) = map p_id (players s)"
            using Message by (simp add: on_message_frame)
          then show ?thesis by (metis set_map subset_refl)
        next
          case (Close j)
          then show ?thesis using keys_map_delete_subset [of p_id "players s" j]
            by (auto simp: on_close_def)
        next
          case Tick
          then show ?thesis by (metis update_player_ids set_map subset_refl step.simps(4))
        qed simp
        with q new show False by auto
      qed
      with q new set_map_set_subset [of p_id "players s"]
      have "q = createPlayer (uuidv4 env (uuidCalls s))
          (TEAMS ! (nextTeamIndex s mod length TEAMS))"
        by (auto simp: on_connection_def Let_def)
      then show ?thesis by (simp add: createPlayer_def)
    next
      case (Some p)
      from step_score_of [OF inj ok Some g] have "score p \<le> score q" by (simp split: if_splits)
      moreover from Some ok have "0 \<le> score p"
        by (auto simp: players_ok_def list_all_iff dest: map_get_SomeD)
      ultimately show ?thesis by simp
    qed
  qed
  from drawn dist nonneg show ?thesis by (simp add: players_ok_def)
qed


lemma run_players_ok:
  "inj (uuidv4 env) \<Longrightarrow> players_ok env s \<Longrightarrow> players_ok env (run env s es)"
  by (induction es arbitrary: s) (simp_all add: step_players_ok)

lemma run_append: "run env s (es @ es') = run env (run env s es) es'"
  by (induction es arbitrary: s) simp_all

text \<open>An id that has been handed out and is not in use is never in use again.\<close>

lemma step_absent:
  assumes inj: "inj (uuidv4 env)" and k: "k < uuidCalls s"
    and absent: "uuidv4 env k \<notin> p_id ` set (players s)"
  shows "uuidv4 env k \<notin> p_id ` set (players (step env s e))"
proof
  assume "uuidv4 env k \<in> p_id ` set (players (step env s e))"
  with step_player_ids [of env s e] absent have "uuidv4 env k = uuidv4 env (uuidCalls s)"
    by auto
  with inj have "k = uuidCalls s" by (auto dest: injD)
  with k show False by simp
qed

lemma run_absent:
  "inj (uuidv4 env) \<Longrightarrow> k < uuidCalls s \<Longrightarrow> uuidv4 env k \<notin> p_id ` set (players s) \<Longrightarrow>
     uuidv4 env k \<notin> p_id ` set (players (run env s es))"
proof (induction es arbitrary: s)
  case Nil
  then show ?case by simp
next
  case (Cons e es)
  have "k < uuidCalls (step env s e)"
    using Cons.prems(2) step_uuidCalls [of s env e] by simp
  from Cons.IH [OF Cons.prems(1) this step_absent [OF Cons.prems]] show ?case by simp
qed

lemma run_score_mono:
  "inj (uuidv4 env) \<Longrightarrow> players_ok env s \<Longrightarrow> map_get p_id (players s) i = Some p \<Longrightarrow>
     map_get p_id (players (run env s es)) i = Some p' \<Longrightarrow> score p \<le> score p'"
proof (induction es arbitrary: s p)
  case Nil
  then show ?case by simp
next
  case (Cons e es)
  have ok1: "players_ok env (step env s e)" by (rule step_players_ok [OF Cons.prems(1,2)])
  show ?case
  proof (cases "map_get p_id (players (step env s e)) i")
    case None
    have "i \<in> p_id ` set (players s)" using Cons.prems(3) by (auto dest: map_get_SomeD)
    with Cons.prems(2) obtain k where k: "k < uuidCalls s" "i = uuidv4 env k"
      by (auto simp: players_ok_def player_ids_drawn_def)
    have "k < uuidCalls (step env s e)" using k(1) step_uuidCalls [of s env e] by simp
    moreover have "uuidv4 env k \<notin> p_id ` set (players (step env s e))"
      using None k(2) by (simp add: map_get_None_iff)
    ultimately have "uuidv4 env k \<notin> p_id ` set (players (run env (step env s e) es))"
      by (rule run_absent [OF Cons.prems(1)])
    moreover have "i \<in> p_id ` set (players (run env (step env s e) es))"
      using Cons.prems(4) map_get_SomeD [of p_id "players (run env (step env s e) es)" i p']
      by auto
    ultimately show ?thesis using k(2) by simp
  next
    case (Some p1)
    from step_score_of [OF Cons.prems(1,2,3) Some] have "score p \<le> score p1"
      by (simp split: if_splits)
    moreover from Cons.IH [OF Cons.prems(1) ok1 Some] Cons.prems(4) have "score p1 \<le> score p'"
      by simp
    ultimately show ?thesis by simp
  qed
qed

lemma init_balls_players:
  "players (init_balls env i s) = players s \<and> uuidCalls s \<le> uuidCalls (init_balls env i s)"
proof (induction env i s rule: init_balls.induct)
  case (1 env i s)
  show ?case
  proof (cases "i < BALL_COUNT")
    case True
    with "1.IH" [OF True] show ?thesis
      by (subst (1 2) init_balls.simps) (simp add: split_beta createBall_snd)
  next
    case False
    then show ?thesis by (subst (1 2) init_balls.simps) simp
  qed
qed

lemma startup_players_ok: "players_ok env (startup env)"
  using init_balls_players [of env 0 empty_state]
  by (simp add: players_ok_def player_ids_drawn_def startup_def empty_state_def)

subsection \<open>The concrete environment\<close>

lemma inj_demo_uuid: "inj demo_uuid"
proof (rule injI)
  fix a b
  assume "demo_uuid a = demo_uuid b"
  then have "length (demo_uuid a) = length (demo_uuid b)" by simp
  then show "a = b" by (simp add: demo_uuid_def)
qed

lemma inj_demo_env: "inj (uuidv4 demo_env)"
  by (simp add: demo_env_def inj_demo_uuid)

lemmas eval_defs =
  startup_def init_balls.simps empty_state_def createBall_def randInField_def config_defs
  server_def on_connection_def createPlayer_def update_def player_tick_def move_def follow_def
  score_goal_def isInGoal_def dist2_def pickupRange_def pickup_body_def collisionDist2_def
  drop_ball_def collide_pair_def collide_inner.simps collide_outer.simps broadcastState_def
  on_message_def on_close_def map_get_def Let_def

lemma demo_uuid_values:
  "demo_uuid 0 = ''u''" "demo_uuid (Suc 0) = ''uu''" "demo_uuid 2 = ''uuu''" "demo_uuid 3 = ''uuuu''"
  "demo_uuid 4 = ''uuuuu''" "demo_uuid 5 = ''uuuuuu''" "demo_uuid 6 = ''uuuuuuu''"
  "demo_uuid 7 = ''uuuuuuuu''"
  by (simp_all add: demo_uuid_def eval_nat_numeral)

lemmas demo_defs =
  demo_env_def demo_uuid_def eval_nat_numeral demo_rest_def demo_carrier_def demo_input_def

lemma server_snoc: "server env (es @ [e]) = step env (server env es) e"
  by (simp add: server_def run_append)

lemma demo_startup:
  "startup demo_env =
     \<lparr>players = [],
      balls = \<lparr>b_id = ''u'', b_x = Num (- 360), b_y = Num 0, carriedBy = None\<rparr> # demo_rest,
      nextTeamIndex = 0, uuidCalls = 5, randomCalls = 10\<rparr>"
  by (simp add: eval_defs demo_defs)

lemma demo_joined:
  "server demo_env [Connection] =
     \<lparr>players =
        [\<lparr>p_id = ''uuuuuu'', team = ''left'', p_x = Num (- 360), p_y = Num 0, dirX = Num 0,
          dirY = Num 0, score = 0, carryingBallId = None\<rparr>],
      balls = \<lparr>b_id = ''u'', b_x = Num (- 360), b_y = Num 0, carriedBy = None\<rparr> # demo_rest,
      nextTeamIndex = 1, uuidCalls = 6, randomCalls = 10\<rparr>"
  by (simp add: server_def demo_startup) (simp add: eval_defs demo_defs)

lemma demo_picked:
  "server demo_env [Connection, Tick] =
     \<lparr>players =
        [\<lparr>p_id = ''uuuuuu'', team = ''left'', p_x = Num (- 360), p_y = Num 0, dirX = Num 0,
          dirY = Num 0, score = 0, carryingBallId = Some ''u''\<rparr>],
      balls = \<lparr>b_id = ''u'', b_x = Num (- 360), b_y = Num 0, carriedBy = Some ''uuuuuu''\<rparr> # demo_rest,
      nextTeamIndex = 1, uuidCalls = 6, randomCalls = 10\<rparr>"
  using server_snoc [of demo_env "[Connection]" Tick]
  by (simp add: demo_joined) (simp add: eval_defs demo_defs)

lemma demo_walking: "server demo_env [Connection, Tick, demo_input] = demo_carrier (- 360)"
  using server_snoc [of demo_env "[Connection, Tick]" demo_input]
  by (simp add: demo_picked) (simp add: eval_defs demo_defs)


lemma demo_move:
  assumes "- 392 \<le> x" and "x \<le> 395"
  shows "move \<lparr>p_id = i, team = t, p_x = Num x, p_y = Num 0, dirX = Num (- 1),
          dirY = Num 0, score = n, carryingBallId = c\<rparr>
       = \<lparr>p_id = i, team = t, p_x = Num (x - 3), p_y = Num 0, dirX = Num (- 1),
          dirY = Num 0, score = n, carryingBallId = c\<rparr>"
  using assms by (simp add: move_def Let_def config_defs)


lemmas tick_defs =
  update_def player_tick_def follow_def score_goal_def isInGoal_def dist2_def pickupRange_def
  pickup_body_def collisionDist2_def drop_ball_def collide_pair_def collide_inner.simps
  collide_outer.simps map_get_def createBall_def randInField_def config_defs Let_def

lemma demo_walk_tick:
  assumes "- 377 \<le> x" and "x \<le> 395"
  shows "update demo_env (demo_carrier x) = demo_carrier (x - 3)"
proof -
  have "- 392 \<le> x" using assms by simp
  from demo_move [OF this assms(2)] assms(1) show ?thesis
    by (simp add: tick_defs demo_carrier_def demo_rest_def)
qed


lemma demo_run_walk:
  "- 380 + 3 * real n \<le> x \<Longrightarrow> x \<le> 395 \<Longrightarrow>
     run demo_env (demo_carrier x) (replicate n Tick) = demo_carrier (x - 3 * real n)"
proof (induction n arbitrary: x)
  case 0
  then show ?case by simp
next
  case (Suc n)
  have "update demo_env (demo_carrier x) = demo_carrier (x - 3)"
    using Suc.prems by (intro demo_walk_tick) simp_all
  moreover have "run demo_env (demo_carrier (x - 3)) (replicate n Tick) = demo_carrier (x - 3 - 3 * real n)"
    using Suc.prems by (intro Suc.IH) simp_all
  ultimately show ?case by (simp add: algebra_simps)
qed

lemma demo_at_goal_line:
  "server demo_env ([Connection, Tick, demo_input] @ replicate 6 Tick) = demo_carrier (- 378)"
proof -
  have "run demo_env (demo_carrier (- 360)) (replicate 6 Tick) = demo_carrier (- 360 - 3 * real 6)"
    by (rule demo_run_walk) simp_all
  with demo_walking show ?thesis by (simp add: server_def run_append)
qed

lemma demo_scored:
  "update demo_env (demo_carrier (- 378)) =
     \<lparr>players =
        [\<lparr>p_id = ''uuuuuu'', team = ''left'', p_x = Num (- 381), p_y = Num 0, dirX = Num (- 1),
          dirY = Num 0, score = 1, carryingBallId = None\<rparr>],
      balls = demo_rest @ [\<lparr>b_id = ''uuuuuuu'', b_x = Num 0, b_y = Num 0, carriedBy = None\<rparr>],
      nextTeamIndex = 1, uuidCalls = 7, randomCalls = 12\<rparr>"
proof -
  have "- 392 \<le> (- 378 :: real)" "(- 378 :: real) \<le> 395" by simp_all
  from demo_move [OF this] show ?thesis
    by (simp add: tick_defs demo_carrier_def demo_rest_def demo_env_def demo_uuid_def
        eval_nat_numeral)
qed

lemma move_idle: "dirX p = Num 0 \<Longrightarrow> dirY p = Num 0 \<Longrightarrow> move p = p"
  by (simp add: move_def)

lemma demo_orphaned:
  "server demo_env [Connection, Tick, Close ''uuuuuu''] =
     \<lparr>players = [],
      balls = \<lparr>b_id = ''u'', b_x = Num (- 360), b_y = Num 0, carriedBy = Some ''uuuuuu''\<rparr> # demo_rest,
      nextTeamIndex = 1, uuidCalls = 6, randomCalls = 10\<rparr>"
  using server_snoc [of demo_env "[Connection, Tick]" "Close ''uuuuuu''"]
  by (simp add: demo_picked) (simp add: on_close_def)

lemma demo_orphaned_tick:
  "server demo_env [Connection, Tick, Close ''uuuuuu'', Tick] =
     \<lparr>players = [],
      balls = \<lparr>b_id = ''u'', b_x = Num (- 360), b_y = Num 0, carriedBy = Some ''uuuuuu''\<rparr> # demo_rest,
      nextTeamIndex = 1, uuidCalls = 6, randomCalls = 10\<rparr>"
  using server_snoc [of demo_env "[Connection, Tick, Close ''uuuuuu'']" Tick]
  by (simp add: demo_orphaned) (simp add: tick_defs)

lemma demo_rejoined:
  "server demo_env [Connection, Tick, Close ''uuuuuu'', Tick, Connection, Connection] =
     \<lparr>players =
        [\<lparr>p_id = ''uuuuuuu'', team = ''right'', p_x = Num 360, p_y = Num 0,
            dirX = Num 0, dirY = Num 0, score = 0, carryingBallId = None\<rparr>,
         \<lparr>p_id = ''uuuuuuuu'', team = ''left'', p_x = Num (- 360), p_y = Num 0,
            dirX = Num 0, dirY = Num 0, score = 0, carryingBallId = None\<rparr>],
      balls = \<lparr>b_id = ''u'', b_x = Num (- 360), b_y = Num 0, carriedBy = Some ''uuuuuu''\<rparr> # demo_rest,
      nextTeamIndex = 3, uuidCalls = 8, randomCalls = 10\<rparr>"
  using server_snoc [of demo_env "[Connection, Tick, Close ''uuuuuu'', Tick]" Connection]
    server_snoc [of demo_env "[Connection, Tick, Close ''uuuuuu'', Tick, Connection]" Connection]
  by (simp add: demo_orphaned_tick) (simp add: eval_defs demo_defs)

lemma demo_rejoined_tick:
  "server demo_env [Connection, Tick, Close ''uuuuuu'', Tick, Connection, Connection, Tick] =
     server demo_env [Connection, Tick, Close ''uuuuuu'', Tick, Connection, Connection]"
  using server_snoc [of demo_env "[Connection, Tick, Close ''uuuuuu'', Tick, Connection, Connection]" Tick]
  by (simp add: demo_rejoined) (simp add: tick_defs move_idle demo_rest_def)

lemma on_message_dropped:
  "on_message env i Unparsable s = (s, True)" "on_message env i ParsedNull s = (s, True)"
  by (simp_all add: on_message_def)

lemma on_message_other_type:
  "t \<noteq> JString ''input'' \<Longrightarrow> on_message env i (Parsed t x y) s = (s, False)"
  by (simp add: on_message_def)

lemma clamp_number:
  "Math_max (Num (- 1)) (Math_min (Num 1) (ToNumber env (JNumber a))) = Num (max (- 1) (min 1 a))"
  by simp

subsection \<open>Pickup\<close>

lemma scan_balls_none: "\<forall>b\<in>set bs. \<not> eligible p b \<Longrightarrow> scan_balls p bs = (bs, None)"
  by (induction bs) (auto simp: eligible_def)

lemma scan_balls_first:
  "n < length bs \<Longrightarrow> eligible p (bs ! n) \<Longrightarrow> \<forall>m<n. \<not> eligible p (bs ! m) \<Longrightarrow>
     scan_balls p bs = (bs[n := (bs ! n)\<lparr>carriedBy := Some (p_id p)\<rparr>], Some (b_id (bs ! n)))"
proof (induction bs arbitrary: n)
  case Nil
  then show ?case by simp
next
  case (Cons b bs)
  show ?case
  proof (cases n)
    case 0
    with Cons.prems show ?thesis by (simp add: eligible_def)
  next
    case (Suc k)
    from Cons.prems Suc have b: "\<not> eligible p b" by auto
    have "scan_balls p bs = (bs[k := (bs ! k)\<lparr>carriedBy := Some (p_id p)\<rparr>], Some (b_id (bs ! k)))"
      using Cons.prems Suc by (intro Cons.IH) auto
    with b Suc show ?thesis by (auto simp: eligible_def)
  qed
qed

text \<open>Either no ball is eligible, or there is a first eligible one.\<close>

lemma first_eligible:
  "(\<forall>b\<in>set bs. \<not> eligible p b)
   \<or> (\<exists>n<length bs. eligible p (bs ! n) \<and> (\<forall>m<n. \<not> eligible p (bs ! m)))"
proof (induction bs)
  case Nil
  then show ?case by simp
next
  case (Cons b bs)
  show ?case
  proof (cases "eligible p b")
    case True
    then have "0 < length (b # bs) \<and> eligible p ((b # bs) ! 0) \<and> (\<forall>m<0. \<not> eligible p ((b # bs) ! m))"
      by simp
    then show ?thesis by blast
  next
    case False
    from Cons.IH show ?thesis
    proof
      assume "\<forall>b\<in>set bs. \<not> eligible p b"
      with False show ?thesis by simp
    next
      assume "\<exists>n<length bs. eligible p (bs ! n) \<and> (\<forall>m<n. \<not> eligible p (bs ! m))"
      then obtain n where n: "n < length bs" "eligible p (bs ! n)" "\<forall>m<n. \<not> eligible p (bs ! m)"
        by blast
      have "\<not> eligible p ((b # bs) ! m)" if "m < Suc n" for m
        using that n(3) False by (cases m) simp_all
      with n have "Suc n < length (b # bs) \<and> eligible p ((b # bs) ! Suc n)
          \<and> (\<forall>m<Suc n. \<not> eligible p ((b # bs) ! m))"
        by simp
      then show ?thesis by blast
    qed
  qed
qed

lemma pickup_body_cases:
  "pickup_body p bs = (p, bs)
   \<or> (\<not> truthy (carryingBallId p)
       \<and> (\<exists>n<length bs. eligible p (bs ! n) \<and> (\<forall>m<n. \<not> eligible p (bs ! m))
            \<and> pickup_body p bs = (p\<lparr>carryingBallId := Some (b_id (bs ! n))\<rparr>,
                 bs[n := (bs ! n)\<lparr>carriedBy := Some (p_id p)\<rparr>])))"
proof (cases "truthy (carryingBallId p)")
  case True
  then show ?thesis by (simp add: pickup_body_def)
next
  case False
  from first_eligible [of bs p] show ?thesis
  proof
    assume "\<forall>b\<in>set bs. \<not> eligible p b"
    with False show ?thesis by (simp add: pickup_body_def scan_balls_none)
  next
    assume "\<exists>n<length bs. eligible p (bs ! n) \<and> (\<forall>m<n. \<not> eligible p (bs ! m))"
    then obtain n where n: "n < length bs" "eligible p (bs ! n)" "\<forall>m<n. \<not> eligible p (bs ! m)"
      by blast
    have "pickup_body p bs = (p\<lparr>carryingBallId := Some (b_id (bs ! n))\<rparr>,
                 bs[n := (bs ! n)\<lparr>carriedBy := Some (p_id p)\<rparr>])"
      using scan_balls_first [OF n] False by (simp add: pickup_body_def)
    with False n show ?thesis by blast
  qed
qed



lemma pickup_loop_length: "length (fst (pickup_loop ps bs)) = length ps"
  by (metis pickup_loop_frame length_map)





subsection \<open>Scoring\<close>

lemma map_delete_map_modify:
  "(\<And>x. key (f x) = key x) \<Longrightarrow> map_delete key (map_modify key f xs k) k = map_delete key xs k"
  by (induction xs) auto

lemma map_delete_follow:
  "carryingBallId p = Some k \<Longrightarrow> map_delete b_id (follow p bs) k = map_delete b_id bs k"
  by (simp add: follow_def map_delete_map_modify split: option.splits)

lemma map_get_follow_present:
  "k \<in> b_id ` set bs \<Longrightarrow> map_get b_id (follow p bs) k \<noteq> None"
proof -
  assume "k \<in> b_id ` set bs"
  moreover have "b_id ` set (follow p bs) = b_id ` set bs" by (metis follow_ids set_map)
  ultimately show ?thesis by (simp add: map_get_None_iff)
qed

lemma isInGoal_finite:
  "isInGoal t (Num x) (Num y) \<longleftrightarrow>
     (if t = ''left'' then x - (- WORLD_WIDTH / 2) < GOAL_DEPTH else WORLD_WIDTH / 2 - x < GOAL_DEPTH)
     \<and> \<bar>y\<bar> < GOAL_WIDTH / 2"
  by (auto simp: isInGoal_def)

lemma randInField_in_field:
  assumes "0 \<le> Math_random env r" "Math_random env r < 1"
    and "0 \<le> Math_random env (r + 1)" "Math_random env (r + 1) < 1"
  shows "\<exists>x y. randInField env r = (Num x, Num y)
           \<and> - WORLD_WIDTH / 2 \<le> x \<and> x < WORLD_WIDTH / 2
           \<and> - WORLD_HEIGHT / 2 \<le> y \<and> y < WORLD_HEIGHT / 2"
  using assms by (simp add: randInField_def config_defs)

subsection \<open>A run depends on the environment through the draws it consumes\<close>

lemma same_draws_mono: "same_draws e1 e2 u r \<Longrightarrow> u' \<le> u \<Longrightarrow> r' \<le> r \<Longrightarrow> same_draws e1 e2 u' r'"
  by (auto simp: same_draws_def)

lemma createBall_same:
  "same_draws e1 e2 (uuidCalls s + 1) (randomCalls s + 2) \<Longrightarrow> createBall e1 s = createBall e2 s"
  by (simp add: same_draws_def createBall_def randInField_def Let_def)

lemma score_goal_same:
  assumes "same_draws e1 e2 (uuidCalls (snd (score_goal e1 p s))) (randomCalls (snd (score_goal e1 p s)))"
  shows "score_goal e1 p s = score_goal e2 p s"
proof (cases "\<exists>k b. carryingBallId p = Some k \<and> k \<noteq> [] \<and> isInGoal (team p) (p_x p) (p_y p)
                \<and> map_get b_id (balls s) k = Some b")
  case True
  then obtain k b where k: "carryingBallId p = Some k" "k \<noteq> []"
    "isInGoal (team p) (p_x p) (p_y p)" "map_get b_id (balls s) k = Some b" by blast
  let ?s = "s\<lparr>balls := map_delete b_id (balls s) k\<rparr>"
  have "same_draws e1 e2 (uuidCalls ?s + 1) (randomCalls ?s + 2)"
    using assms k by (simp add: score_goal_def createBall_def Let_def)
  then have "createBall e1 ?s = createBall e2 ?s" by (rule createBall_same)
  with k show ?thesis by (simp add: score_goal_def)
next
  case False
  then show ?thesis by (auto simp: score_goal_def split: option.splits)
qed

lemma player_tick_same:
  "same_draws e1 e2 (uuidCalls (snd (player_tick e1 p s))) (randomCalls (snd (player_tick e1 p s)))
     \<Longrightarrow> player_tick e1 p s = player_tick e2 p s"
  using score_goal_same [of e1 e2 "move p" "s\<lparr>balls := follow (move p) (balls s)\<rparr>"]
  by (simp add: player_tick_def Let_def)

lemma move_loop_same:
  "same_draws e1 e2 (uuidCalls (snd (move_loop e1 ps s))) (randomCalls (snd (move_loop e1 ps s)))
     \<Longrightarrow> move_loop e1 ps s = move_loop e2 ps s"
proof (induction ps arbitrary: s)
  case Nil
  then show ?case by simp
next
  case (Cons p ps)
  obtain p1 s1 where t: "player_tick e1 p s = (p1, s1)" by (cases "player_tick e1 p s")
  obtain ps2 s2 where l: "move_loop e1 ps s1 = (ps2, s2)" by (cases "move_loop e1 ps s1")
  from Cons.prems t l have final: "same_draws e1 e2 (uuidCalls s2) (randomCalls s2)" by simp
  from move_loop_frame [OF l] have "uuidCalls s1 \<le> uuidCalls s2" "randomCalls s1 \<le> randomCalls s2"
    by simp_all
  with final have "same_draws e1 e2 (uuidCalls s1) (randomCalls s1)" by (rule same_draws_mono)
  with t have t2: "player_tick e2 p s = (p1, s1)" using player_tick_same [of e1 e2 p s] by simp
  from final l have "move_loop e2 ps s1 = (ps2, s2)" using Cons.IH [of s1] by simp
  with t t2 l show ?case by simp
qed

lemma update_same:
  assumes "same_draws e1 e2 (uuidCalls (update e1 s)) (randomCalls (update e1 s))"
  shows "update e1 s = update e2 s"
proof -
  have "uuidCalls (update e1 s) = uuidCalls (snd (move_loop e1 (players s) s))"
    "randomCalls (update e1 s) = randomCalls (snd (move_loop e1 (players s) s))"
    by (simp_all add: update_expand Let_def)
  with assms have "move_loop e1 (players s) s = move_loop e2 (players s) s"
    by (intro move_loop_same) simp
  then show ?thesis by (simp add: update_def)
qed

lemma ToNumber_same: "StringToNumber e1 = StringToNumber e2 \<Longrightarrow> ToNumber e1 v = ToNumber e2 v"
  by (cases v) simp_all

lemma step_same:
  assumes "same_draws e1 e2 (uuidCalls (step e1 s e)) (randomCalls (step e1 s e))"
  shows "step e1 s e = step e2 s e"
proof (cases e)
  case Connection
  with assms show ?thesis by (simp add: on_connection_def Let_def same_draws_def)
next
  case (Message i d)
  from assms have "StringToNumber e1 = StringToNumber e2" by (simp add: same_draws_def)
  then have "ToNumber e1 v = ToNumber e2 v" for v by (rule ToNumber_same)
  with Message show ?thesis
    by (simp add: on_message_def split: inbound.splits option.splits)
next
  case (Close i)
  then show ?thesis by simp
next
  case Tick
  with assms update_same [of e1 e2 s] show ?thesis by simp
qed

lemma step_randomCalls: "randomCalls s \<le> randomCalls (step env s e)"
  by (cases e) (simp_all add: on_connection_def on_message_frame on_close_def update_counters Let_def)

lemma run_counters:
  "uuidCalls s \<le> uuidCalls (run env s es) \<and> randomCalls s \<le> randomCalls (run env s es)"
proof (induction es arbitrary: s)
  case Nil
  then show ?case by simp
next
  case (Cons e es)
  from Cons.IH [of "step env s e"] step_uuidCalls [of s env e] step_randomCalls [of s env e]
  show ?case by simp
qed

lemma run_same:
  "same_draws e1 e2 (uuidCalls (run e1 s es)) (randomCalls (run e1 s es)) \<Longrightarrow>
     run e1 s es = run e2 s es \<and> snapshots e1 s es = snapshots e2 s es"
proof (induction es arbitrary: s)
  case Nil
  then show ?case by simp
next
  case (Cons e es)
  let ?s1 = "step e1 s e"
  from Cons.prems have final: "same_draws e1 e2 (uuidCalls (run e1 ?s1 es)) (randomCalls (run e1 ?s1 es))"
    by simp
  with run_counters [of ?s1 e1 es] have "same_draws e1 e2 (uuidCalls ?s1) (randomCalls ?s1)"
    by (auto intro: same_draws_mono)
  then have st: "step e1 s e = step e2 s e" by (rule step_same)
  from Cons.IH [OF final] have rest: "run e1 ?s1 es = run e2 ?s1 es"
    "snapshots e1 ?s1 es = snapshots e2 ?s1 es" by simp_all
  have "snapshots e1 s (e # es) = snapshots e2 s (e # es)"
  proof (cases e)
    case Tick
    with st rest show ?thesis by simp
  qed (use st rest in simp_all)
  with st rest show ?case by simp
qed

lemma init_balls_counters:
  "uuidCalls s \<le> uuidCalls (init_balls env i s) \<and> randomCalls s \<le> randomCalls (init_balls env i s)"
proof (induction env i s rule: init_balls.induct)
  case (1 env i s)
  show ?case
  proof (cases "i < BALL_COUNT")
    case True
    with "1.IH" [OF True] show ?thesis
      by (subst (1 2) init_balls.simps) (simp add: split_beta createBall_snd)
  next
    case False
    then show ?thesis by (subst (1 2) init_balls.simps) simp
  qed
qed

lemma init_balls_same:
  "same_draws e1 e2 (uuidCalls (init_balls e1 i s)) (randomCalls (init_balls e1 i s)) \<Longrightarrow>
     init_balls e1 i s = init_balls e2 i s"
proof (induction e1 i s rule: init_balls.induct)
  case (1 e1 i s)
  show ?case
  proof (cases "i < BALL_COUNT")
    case True
    let ?s1 = "snd (createBall e1 s)\<lparr>balls := map_set b_id (balls s) (fst (createBall e1 s))\<rparr>"
    have unf: "init_balls e1 i s = init_balls e1 (i + 1) ?s1"
      using True by (subst init_balls.simps) (simp add: split_beta createBall_snd)
    with "1.prems" have final:
      "same_draws e1 e2 (uuidCalls (init_balls e1 (i + 1) ?s1)) (randomCalls (init_balls e1 (i + 1) ?s1))"
      by simp
    from init_balls_counters [of ?s1 e1 "i + 1"] final
    have "same_draws e1 e2 (uuidCalls s + 1) (randomCalls s + 2)"
      by (auto intro: same_draws_mono simp: createBall_snd)
    then have cb: "createBall e1 s = createBall e2 s" by (rule createBall_same)
    have "(case createBall e1 s of (ball, s') \<Rightarrow> s'\<lparr>balls := map_set b_id (balls s') ball\<rparr>) = ?s1"
      by (simp add: split_beta createBall_snd)
    with "1.IH" [OF True] final have "init_balls e1 (i + 1) ?s1 = init_balls e2 (i + 1) ?s1"
      by simp
    moreover have "init_balls e2 i s = init_balls e2 (i + 1) ?s1"
      using True cb by (subst init_balls.simps) (simp add: split_beta createBall_snd)
    ultimately show ?thesis using unf by simp
  next
    case False
    then show ?thesis by (subst (1 2) init_balls.simps) simp
  qed
qed

lemma server_same:
  assumes "same_draws e1 e2 (uuidCalls (server e1 es)) (randomCalls (server e1 es))"
  shows "startup e1 = startup e2" and "server e1 es = server e2 es"
    and "snapshots e1 (startup e1) es = snapshots e2 (startup e2) es"
proof -
  from assms run_counters [of "startup e1" e1 es]
  have "same_draws e1 e2 (uuidCalls (startup e1)) (randomCalls (startup e1))"
    by (auto intro: same_draws_mono simp: server_def)
  then show st: "startup e1 = startup e2"
    unfolding startup_def by (rule init_balls_same)
  from run_same [of e1 e2 "startup e1" es] assms
  show "server e1 es = server e2 es" "snapshots e1 (startup e1) es = snapshots e2 (startup e2) es"
    by (simp_all add: server_def st)
qed


lemma twin_startup:
  "startup twin_env =
     \<lparr>players = [],
      balls =
        [\<lparr>b_id = ''u'', b_x = Num (- 360), b_y = Num 0, carriedBy = None\<rparr>,
         \<lparr>b_id = ''uu'', b_x = Num (- 360), b_y = Num 0, carriedBy = None\<rparr>,
         \<lparr>b_id = ''uuu'', b_x = Num 0, b_y = Num 0, carriedBy = None\<rparr>,
         \<lparr>b_id = ''uuuu'', b_x = Num 0, b_y = Num 0, carriedBy = None\<rparr>,
         \<lparr>b_id = ''uuuuu'', b_x = Num 0, b_y = Num 0, carriedBy = None\<rparr>],
      nextTeamIndex = 0, uuidCalls = 5, randomCalls = 10\<rparr>"
  by (simp add: eval_defs twin_env_def demo_uuid_def eval_nat_numeral)

lemma update_no_players: "players s = [] \<Longrightarrow> update env s = s"
  by (simp add: update_def collide_outer.simps)

subsection \<open>A run to the left wall\<close>

lemma move_left:
  assumes "x \<le> 398"
  shows "move \<lparr>p_id = i, team = t, p_x = Num x, p_y = Num 0, dirX = Num (- 1),
          dirY = Num 0, score = n, carryingBallId = c\<rparr>
       = \<lparr>p_id = i, team = t, p_x = Num (max (- 395) (x - 3)), p_y = Num 0, dirX = Num (- 1),
          dirY = Num 0, score = n, carryingBallId = c\<rparr>"
  using assms by (simp add: move_def Let_def config_defs)

lemma square_ge: "c \<le> a \<or> a \<le> - c \<Longrightarrow> 0 \<le> c \<Longrightarrow> c * c \<le> a * (a :: real)"
proof -
  assume "c \<le> a \<or> a \<le> - c" and "0 \<le> c"
  then have "\<bar>c\<bar> \<le> \<bar>a\<bar>" by auto
  then have "c\<^sup>2 \<le> a\<^sup>2" by (rule abs_le_square_iff [THEN iffD1])
  then show ?thesis by (simp add: power2_eq_square)
qed

lemma dist2_finite:
  "dist2 (Num x1) (Num y1) (Num x2) (Num y2) = Num ((x1 - x2) * (x1 - x2) + (y1 - y2) * (y1 - y2))"
  by (simp add: dist2_def Let_def)

lemma not_in_pickup_range:
  assumes "8 \<le> x1 - x2 \<or> x1 - x2 \<le> - 8"
  shows "js_lt (dist2 (Num x1) (Num y1) (Num x2) (Num y2)) pickupRange = False"
proof -
  have "8 * 8 \<le> (x1 - x2) * (x1 - x2)" using assms by (intro square_ge) simp_all
  moreover have "0 \<le> (y1 - y2) * (y1 - y2)" by simp
  ultimately have "\<not> (x1 - x2) * (x1 - x2) + (y1 - y2) * (y1 - y2) < 64" by linarith
  then show ?thesis by (simp add: dist2_finite pickupRange_def config_defs)
qed

lemma not_colliding:
  assumes "10 \<le> x1 - x2 \<or> x1 - x2 \<le> - 10"
  shows "js_lt (dist2 (Num x1) (Num y1) (Num x2) (Num y2)) collisionDist2 = False"
proof -
  have "10 * 10 \<le> (x1 - x2) * (x1 - x2)" using assms by (intro square_ge) simp_all
  moreover have "0 \<le> (y1 - y2) * (y1 - y2)" by simp
  ultimately have "\<not> (x1 - x2) * (x1 - x2) + (y1 - y2) * (y1 - y2) < 100" by linarith
  then show ?thesis by (simp add: dist2_finite collisionDist2_def config_defs)
qed

lemmas far_tick_defs =
  update_def player_tick_def follow_def score_goal_def isInGoal_def pickup_body_def
  drop_ball_def collide_pair_def collide_inner.simps collide_outer.simps map_get_def
  not_in_pickup_range not_colliding Let_def

lemma centre_startup:
  "startup centre_env =
     \<lparr>players = [], balls = centre_balls, nextTeamIndex = 0, uuidCalls = 5, randomCalls = 10\<rparr>"
  by (simp add: eval_defs centre_env_def centre_balls_def demo_uuid_def eval_nat_numeral)

lemma centre_alone: "server centre_env [Connection, walk_left ''uuuuuu''] = alone (- 360)"
  by (simp add: server_def centre_startup)
    (simp add: on_connection_def on_message_def createPlayer_def config_defs map_get_def
      walk_left_def alone_def centre_env_def demo_uuid_def eval_nat_numeral)

lemma alone_tick:
  assumes "x \<le> - 5"
  shows "update centre_env (alone x) = alone (max (- 395) (x - 3))"
proof -
  have "x \<le> 398" using assms by simp
  from move_left [OF this] assms show ?thesis
    by (simp add: far_tick_defs alone_def centre_balls_def)
qed


lemma alone_run:
  "x \<le> - 5 \<Longrightarrow> - 395 \<le> x \<Longrightarrow>
     run centre_env (alone x) (replicate n Tick) = alone (max (- 395) (x - 3 * real n))"
proof (induction n arbitrary: x)
  case 0
  then show ?case by simp
next
  case (Suc n)
  let ?y = "max (- 395) (x - 3)"
  have "run centre_env (alone ?y) (replicate n Tick) = alone (max (- 395) (?y - 3 * real n))"
    using Suc.prems by (intro Suc.IH) simp_all
  moreover have "max (- 395) (?y - 3 * real n) = max (- 395) (x - 3 * real (Suc n))"
    by (simp add: max_def algebra_simps)
  ultimately show ?case using Suc.prems by (simp add: alone_tick)
qed

lemma alone_at_wall:
  "server centre_env ([Connection, walk_left ''uuuuuu''] @ replicate 12 Tick) = alone (- 395)"
proof -
  have "run centre_env (alone (- 360)) (replicate 12 Tick) = alone (max (- 395) (- 360 - 3 * real 12))"
    by (rule alone_run) simp_all
  with centre_alone show ?thesis by (simp add: server_def run_append)
qed

lemma crowd_joined:
  "run centre_env (alone (- 395)) [Connection, Connection, walk_left ''uuuuuuuu'']
     = crowd (- 395) (- 360)"
  by (simp add: on_connection_def on_message_def createPlayer_def config_defs map_get_def
      walk_left_def alone_def crowd_def centre_env_def demo_uuid_def eval_nat_numeral Let_def)

lemma crowd_tick:
  assumes "- 382 \<le> x" and "x \<le> - 5"
  shows "update centre_env (crowd (- 395) x) = crowd (- 395) (x - 3)"
proof -
  have "x \<le> 398" "(- 395 :: real) \<le> 398" using assms by simp_all
  from move_left [OF this(1)] move_left [OF this(2)] assms show ?thesis
    by (simp add: far_tick_defs move_idle crowd_def centre_balls_def)
qed

lemma crowd_run:
  "- 385 + 3 * real n \<le> x \<Longrightarrow> x \<le> - 5 \<Longrightarrow>
     run centre_env (crowd (- 395) x) (replicate n Tick) = crowd (- 395) (x - 3 * real n)"
proof (induction n arbitrary: x)
  case 0
  then show ?case by simp
next
  case (Suc n)
  have "update centre_env (crowd (- 395) x) = crowd (- 395) (x - 3)"
    using Suc.prems by (intro crowd_tick) simp_all
  moreover have "run centre_env (crowd (- 395) (x - 3)) (replicate n Tick)
      = crowd (- 395) (x - 3 - 3 * real n)"
    using Suc.prems by (intro Suc.IH) simp_all
  ultimately show ?case by (simp add: algebra_simps)
qed

lemma wall_run_state: "server centre_env wall_run = crowd (- 395) (- 384)"
proof -
  have "run centre_env (crowd (- 395) (- 360)) (replicate 8 Tick)
      = crowd (- 395) (- 360 - 3 * real 8)"
    by (rule crowd_run) simp_all
  with alone_at_wall crowd_joined show ?thesis
    by (simp add: server_def wall_run_def run_append)
qed

lemma sqrt_squares: "sqrt 36 = 6" "sqrt 64 = 8" "sqrt 100 = 10"
  by (rule real_sqrt_unique; simp)+


lemma wall_collision: "update centre_env (crowd (- 395) (- 384)) = crowd (- 398) (- 384)"
proof -
  have "(- 384 :: real) \<le> 398" "(- 395 :: real) \<le> 398" by simp_all
  from move_left [OF this(1)] move_left [OF this(2)] show ?thesis
    by (simp add: tick_defs move_idle crowd_def centre_balls_def sqrt_squares)
qed


lemma twin_tick: "update twin_env twin_state = twin_state"
  by (simp add: tick_defs move_idle twin_state_def sqrt_squares)

lemma move_divisor_nonzero:
  assumes "a \<noteq> 0 \<or> b \<noteq> 0"
  shows "\<exists>m. Math_sqrt (Num a * Num a + Num b * Num b) = Num m \<and> m \<noteq> 0"
proof -
  have "0 < a * a + b * b" using assms by (metis not_sum_squares_lt_zero sum_squares_eq_zero_iff
        linorder_neqE_linordered_idom)
  with assms show ?thesis by simp
qed

lemma js_or_nonzero: "js_or m (Num (1 / 10000)) \<noteq> Num 0"
  by (cases m) simp_all

lemma move_in_bounds:
  assumes "p_x p = Num x" "p_y p = Num y" "dirX p = Num a" "dirY p = Num b" "a \<noteq> 0 \<or> b \<noteq> 0"
  shows "\<exists>x' y'. p_x (move p) = Num x' \<and> p_y (move p) = Num y'
           \<and> - WORLD_WIDTH / 2 + PLAYER_RADIUS \<le> x' \<and> x' \<le> WORLD_WIDTH / 2 - PLAYER_RADIUS
           \<and> - WORLD_HEIGHT / 2 + PLAYER_RADIUS \<le> y' \<and> y' \<le> WORLD_HEIGHT / 2 - PLAYER_RADIUS"
proof -
  from move_divisor_nonzero [OF assms(5)] obtain m where
    m: "Math_sqrt (Num a * Num a + Num b * Num b) = Num m" "m \<noteq> 0" by blast
  then show ?thesis using assms by (auto simp: move_def Let_def config_defs)
qed

subsection \<open>Collision\<close>



lemma drop_ball_player:
  "\<not> truthy (carryingBallId (fst (drop_ball p bs)))"
  "p_x (fst (drop_ball p bs)) = p_x p" "p_y (fst (drop_ball p bs)) = p_y p"
  by (auto simp: drop_ball_def split: option.splits)




subsection \<open>The carry relation\<close>

lemma carry_wfD:
  assumes "carry_wf ps bs"
  shows "distinct (map p_id ps)" and "distinct (map b_id bs)"
    and "\<And>p. p \<in> set ps \<Longrightarrow> p_id p \<noteq> []"
    and "\<And>b. b \<in> set bs \<Longrightarrow> b_id b \<noteq> []"
    and "\<And>p k. p \<in> set ps \<Longrightarrow> carryingBallId p = Some k \<Longrightarrow>
           \<exists>b\<in>set bs. b_id b = k \<and> carriedBy b = Some (p_id p)"
  using assms unfolding carry_wf_def by blast+

lemma carry_wfI:
  assumes "distinct (map p_id ps)" and "distinct (map b_id bs)"
    and "\<And>p. p \<in> set ps \<Longrightarrow> p_id p \<noteq> []"
    and "\<And>b. b \<in> set bs \<Longrightarrow> b_id b \<noteq> []"
    and "\<And>p k. p \<in> set ps \<Longrightarrow> carryingBallId p = Some k \<Longrightarrow>
           \<exists>b\<in>set bs. b_id b = k \<and> carriedBy b = Some (p_id p)"
  shows "carry_wf ps bs"
  using assms unfolding carry_wf_def by blast

lemma distinct_zipper:
  "distinct (map key (xs @ p # ys)) \<Longrightarrow> q \<in> set xs \<union> set ys \<Longrightarrow> key q \<noteq> key p"
  by (auto simp: image_iff)

lemma distinct_same_key:
  "distinct (map key xs) \<Longrightarrow> x \<in> set xs \<Longrightarrow> y \<in> set xs \<Longrightarrow> key x = key y \<Longrightarrow> x = y"
  by (meson distinct_map inj_onD)

lemma set_map_delete:
  "distinct (map key xs) \<Longrightarrow> set (map_delete key xs k) = {x \<in> set xs. key x \<noteq> k}"
proof (induction xs)
  case Nil
  then show ?case by simp
next
  case (Cons x xs)
  show ?case
  proof (cases "key x = k")
    case True
    with Cons.prems show ?thesis by (auto simp: image_iff)
  next
    case False
    with Cons show ?thesis by auto
  qed
qed

lemma set_map_modify:
  "distinct (map key xs) \<Longrightarrow> (\<And>x. key (f x) = key x) \<Longrightarrow>
     set (map_modify key f xs k) = {x \<in> set xs. key x \<noteq> k} \<union> f ` {x \<in> set xs. key x = k}"
proof (induction xs)
  case Nil
  then show ?case by simp
next
  case (Cons x xs)
  show ?case
  proof (cases "key x = k")
    case True
    with Cons.prems show ?thesis by (auto simp: image_iff)
  next
    case False
    with Cons show ?thesis by auto
  qed
qed

text \<open>Under \<open>carry_wf\<close> a carried id is never the empty string, so the truthiness test is a test for \<open>None\<close>.\<close>

lemma carry_wf_truthy:
  "carry_wf ps bs \<Longrightarrow> p \<in> set ps \<Longrightarrow> truthy (carryingBallId p) \<longleftrightarrow> carryingBallId p \<noteq> None"
  by (cases "carryingBallId p") (auto simp: carry_wf_def)

lemma carry_wf_same_player:
  assumes "carry_wf (xs @ p # ys) bs" and "p_id p' = p_id p" and "carryingBallId p' = carryingBallId p"
  shows "carry_wf (xs @ p' # ys) bs"
  using assms unfolding carry_wf_def by auto

lemma all_held_same_player:
  assumes "all_held (xs @ p # ys) bs" and "p_id p' = p_id p" and "carryingBallId p' = carryingBallId p"
  shows "all_held (xs @ p' # ys) bs"
  using assms unfolding all_held_def by (auto; metis)


lemma carry_wf_same_balls:
  assumes "map (\<lambda>b. (b_id b, carriedBy b)) bs' = map (\<lambda>b. (b_id b, carriedBy b)) bs"
  shows "carry_wf ps bs' = carry_wf ps bs"
proof -
  let ?pr = "\<lambda>b. (b_id b, carriedBy b)"
  have ex: "(\<exists>b\<in>set cs. b_id b = k \<and> carriedBy b = c) \<longleftrightarrow> (k, c) \<in> set (map ?pr cs)" for cs k c
    by auto
  have ids: "map b_id cs = map fst (map ?pr cs)" for cs by simp
  have "map b_id bs' = map b_id bs" by (simp only: ids assms)
  moreover from this have "b_id ` set bs' = b_id ` set bs" by (metis set_map)
  then have "(\<forall>b\<in>set bs'. b_id b \<noteq> []) \<longleftrightarrow> (\<forall>b\<in>set bs. b_id b \<noteq> [])"
    by (metis (no_types, lifting) image_iff)
  ultimately show ?thesis by (simp only: carry_wf_def ex assms)
qed

lemma all_held_same_balls:
  assumes "map (\<lambda>b. (b_id b, carriedBy b)) bs' = map (\<lambda>b. (b_id b, carriedBy b)) bs"
  shows "all_held ps bs' = all_held ps bs"
proof -
  let ?pr = "\<lambda>b. (b_id b, carriedBy b)"
  have "all_held ps cs \<longleftrightarrow>
      (\<forall>x\<in>set (map ?pr cs). \<forall>i. snd x = Some i \<longrightarrow>
         (\<exists>p\<in>set ps. p_id p = i \<and> carryingBallId p = Some (fst x)))" for cs
    by (auto simp: all_held_def)
  then show ?thesis by (simp only: assms)
qed

lemma follow_carry: "map (\<lambda>b. (b_id b, carriedBy b)) (follow p bs) = map (\<lambda>b. (b_id b, carriedBy b)) bs"
  by (simp add: follow_def map_modify_field split: option.splits)

lemma drop_ball_wf:
  assumes wf: "carry_wf (xs @ p # ys) bs" and d: "drop_ball p bs = (p', bs')"
  shows "carry_wf (xs @ p' # ys) bs'"
proof (cases "truthy (carryingBallId p)")
  case False
  then have "p' = p" "bs' = bs" using d by (auto simp: drop_ball_def split: option.splits)
  with wf show ?thesis by simp
next
  case True
  then obtain k where k: "carryingBallId p = Some k" "k \<noteq> []" by (cases "carryingBallId p") auto
  let ?f = "\<lambda>b. b\<lparr>carriedBy := None\<rparr>"
  from wf have dist: "distinct (map b_id bs)" by (simp add: carry_wf_def)
  have p': "p' = p\<lparr>carryingBallId := None\<rparr>" and bs': "bs' = map_modify b_id ?f bs k"
    using d k by (auto simp: drop_ball_def map_get_None_iff map_modify_absent split: option.splits)
  have set': "set bs' = {x \<in> set bs. b_id x \<noteq> k} \<union> ?f ` {x \<in> set bs. b_id x = k}"
    unfolding bs' by (rule set_map_modify [OF dist]) simp
  have ids: "map b_id bs' = map b_id bs" unfolding bs' by (rule keys_map_modify) simp
  have others: "\<exists>b\<in>set bs'. b_id b = k' \<and> carriedBy b = Some (p_id q)"
    if q: "q \<in> set xs \<union> set ys" and c: "carryingBallId q = Some k'" for q k'
  proof -
    from q have "q \<in> set (xs @ p # ys)" by auto
    from carry_wfD(5) [OF wf this c]
    obtain b where b: "b \<in> set bs" "b_id b = k'" "carriedBy b = Some (p_id q)" by blast
    have "p \<in> set (xs @ p # ys)" by simp
    from carry_wfD(5) [OF wf this k(1)]
    obtain b2 where b2: "b2 \<in> set bs" "b_id b2 = k" "carriedBy b2 = Some (p_id p)" by blast
    have "k' \<noteq> k"
    proof
      assume "k' = k"
      with b b2 have "b = b2" by (intro distinct_same_key [OF dist]) simp_all
      with b b2 have "p_id q = p_id p" by simp
      with distinct_zipper [OF carry_wfD(1) [OF wf] q] show False by simp
    qed
    with b have "b \<in> set bs'" by (simp add: set')
    with b show ?thesis by blast
  qed
  show ?thesis
  proof (rule carry_wfI)
    show "distinct (map p_id (xs @ p' # ys))" using carry_wfD(1) [OF wf] by (simp add: p')
    show "distinct (map b_id bs')" using dist by (simp only: ids)
    show "p_id q \<noteq> []" if "q \<in> set (xs @ p' # ys)" for q
      using that carry_wfD(3) [OF wf, of q] carry_wfD(3) [OF wf, of p] by (auto simp: p')
    show "b_id b \<noteq> []" if "b \<in> set bs'" for b
    proof -
      from that have "b_id b \<in> set (map b_id bs')" by simp
      then have "b_id b \<in> set (map b_id bs)" by (simp only: ids)
      then obtain b0 where "b0 \<in> set bs" "b_id b0 = b_id b" by auto
      with carry_wfD(4) [OF wf] show ?thesis by metis
    qed
    show "\<exists>b\<in>set bs'. b_id b = k' \<and> carriedBy b = Some (p_id q)"
      if "q \<in> set (xs @ p' # ys)" "carryingBallId q = Some k'" for q k'
    proof (cases "q = p'")
      case True
      with that show ?thesis by (simp add: p')
    next
      case False
      with that(1) have "q \<in> set xs \<union> set ys" by auto
      from others [OF this that(2)] show ?thesis .
    qed
  qed
qed


lemma all_heldD:
  "all_held ps bs \<Longrightarrow> b \<in> set bs \<Longrightarrow> carriedBy b = Some i \<Longrightarrow>
     \<exists>p\<in>set ps. p_id p = i \<and> carryingBallId p = Some (b_id b)"
  unfolding all_held_def by blast

lemma all_heldI:
  "(\<And>b i. b \<in> set bs \<Longrightarrow> carriedBy b = Some i \<Longrightarrow>
      \<exists>p\<in>set ps. p_id p = i \<and> carryingBallId p = Some (b_id b)) \<Longrightarrow> all_held ps bs"
  unfolding all_held_def by blast

text \<open>A holder of a ball other than the one that \<open>p\<close> carries is another player.\<close>

lemma other_holder:
  assumes "q \<in> set (xs @ p # ys)" and "carryingBallId q \<noteq> carryingBallId p"
  shows "q \<in> set (xs @ p' # ys)"
  using assms by auto

lemma drop_ball_held:
  assumes held: "all_held (xs @ p # ys) bs" and wf: "carry_wf (xs @ p # ys) bs"
    and d: "drop_ball p bs = (p', bs')"
  shows "all_held (xs @ p' # ys) bs'"
proof (cases "truthy (carryingBallId p)")
  case False
  then have "p' = p" "bs' = bs" using d by (auto simp: drop_ball_def split: option.splits)
  with held show ?thesis by simp
next
  case True
  then obtain k where k: "carryingBallId p = Some k" "k \<noteq> []" by (cases "carryingBallId p") auto
  let ?f = "\<lambda>b. b\<lparr>carriedBy := None\<rparr>"
  have bs': "bs' = map_modify b_id ?f bs k"
    using d k by (auto simp: drop_ball_def map_get_None_iff map_modify_absent split: option.splits)
  have set': "set bs' = {x \<in> set bs. b_id x \<noteq> k} \<union> ?f ` {x \<in> set bs. b_id x = k}"
    unfolding bs' by (rule set_map_modify [OF carry_wfD(2) [OF wf]]) simp
  show ?thesis
  proof (rule all_heldI)
    fix b i assume b: "b \<in> set bs'" "carriedBy b = Some i"
    have "b \<notin> ?f ` {x \<in> set bs. b_id x = k}"
    proof
      assume "b \<in> ?f ` {x \<in> set bs. b_id x = k}"
      then obtain x where "b = ?f x" by blast
      then have "carriedBy b = None" by simp
      with b(2) show False by simp
    qed
    with b(1) have "b \<in> {x \<in> set bs. b_id x \<noteq> k}" unfolding set' by blast
    then have old: "b \<in> set bs" "b_id b \<noteq> k" by simp_all
    from all_heldD [OF held old(1) b(2)] obtain q where
      q: "q \<in> set (xs @ p # ys)" "p_id q = i" "carryingBallId q = Some (b_id b)" by blast
    with old(2) k(1) have "carryingBallId q \<noteq> carryingBallId p" by simp
    from other_holder [OF q(1) this] q(2,3)
    show "\<exists>p\<in>set (xs @ p' # ys). p_id p = i \<and> carryingBallId p = Some (b_id b)" by blast
  qed
qed

lemma score_goal_cases:
  "score_goal env p s = (p, s)
   \<or> (\<exists>k. carryingBallId p = Some k \<and> k \<noteq> [] \<and> isInGoal (team p) (p_x p) (p_y p)
        \<and> fst (score_goal env p s) = p\<lparr>score := score p + 1, carryingBallId := None\<rparr>
        \<and> (if k \<in> b_id ` set (balls s)
            then balls (snd (score_goal env p s)) =
                   map_set b_id (map_delete b_id (balls s) k)
                     \<lparr>b_id = uuidv4 env (uuidCalls s),
                      b_x = fst (randInField env (randomCalls s)),
                      b_y = snd (randInField env (randomCalls s)), carriedBy = None\<rparr>
            else snd (score_goal env p s) = s))"
  by (cases "carryingBallId p")
    (auto simp: score_goal_def createBall_def Let_def map_get_None_iff
      split: option.splits dest: map_get_SomeD)


lemma score_goal_wf:
  assumes wf: "carry_wf (xs @ p # ys) (balls s)"
    and fresh: "uuidv4 env (uuidCalls s) \<notin> b_id ` set (balls s)" "uuidv4 env (uuidCalls s) \<noteq> []"
    and r: "score_goal env p s = (p', s')"
  shows "carry_wf (xs @ p' # ys) (balls s')"
proof -
  from score_goal_cases [of env p s]
  consider (same) "score_goal env p s = (p, s)"
    | (goal) k where "carryingBallId p = Some k" "k \<noteq> []"
        "fst (score_goal env p s) = p\<lparr>score := score p + 1, carryingBallId := None\<rparr>"
        "if k \<in> b_id ` set (balls s)
         then balls (snd (score_goal env p s)) =
                map_set b_id (map_delete b_id (balls s) k)
                  \<lparr>b_id = uuidv4 env (uuidCalls s),
                   b_x = fst (randInField env (randomCalls s)),
                   b_y = snd (randInField env (randomCalls s)), carriedBy = None\<rparr>
         else snd (score_goal env p s) = s"
    by blast
  then show ?thesis
  proof cases
    case same
    with r wf show ?thesis by simp
  next
    case goal
    let ?bs = "balls s"
    let ?nb = "\<lparr>b_id = uuidv4 env (uuidCalls s), b_x = fst (randInField env (randomCalls s)),
                b_y = snd (randInField env (randomCalls s)), carriedBy = None\<rparr>"
    let ?rest = "map_delete b_id ?bs k"
    note dist = carry_wfD(2) [OF wf]
    have "p \<in> set (xs @ p # ys)" by simp
    from carry_wfD(5) [OF wf this goal(1)]
    obtain b2 where b2: "b2 \<in> set ?bs" "b_id b2 = k" "carriedBy b2 = Some (p_id p)" by blast
    then have present: "k \<in> b_id ` set ?bs" by auto
    have fresh': "b_id ?nb \<notin> b_id ` set ?rest"
      using fresh(1) keys_map_delete_subset [of b_id ?bs k] by auto
    have p': "p' = p\<lparr>score := score p + 1, carryingBallId := None\<rparr>"
      using goal(3) r by simp
    have bs': "balls s' = ?rest @ [?nb]"
      using goal(4) present r map_set_fresh [OF fresh'] by simp
    have rest: "set ?rest = {x \<in> set ?bs. b_id x \<noteq> k}" by (rule set_map_delete [OF dist])
    show ?thesis
    proof (rule carry_wfI)
      show "distinct (map p_id (xs @ p' # ys))" using carry_wfD(1) [OF wf] by (simp add: p')
      show "distinct (map b_id (balls s'))"
        using distinct_map_delete [OF dist, of k] fresh' by (simp add: bs')
      show "p_id q \<noteq> []" if "q \<in> set (xs @ p' # ys)" for q
        using that carry_wfD(3) [OF wf, of q] carry_wfD(3) [OF wf, of p] by (auto simp: p')
      show "b_id b \<noteq> []" if "b \<in> set (balls s')" for b
        using that fresh(2) carry_wfD(4) [OF wf, of b] by (auto simp: bs' rest)
      show "\<exists>b\<in>set (balls s'). b_id b = k' \<and> carriedBy b = Some (p_id q)"
        if q: "q \<in> set (xs @ p' # ys)" "carryingBallId q = Some k'" for q k'
      proof -
        from q have "q \<noteq> p'" by (auto simp: p')
        with q(1) have other: "q \<in> set xs \<union> set ys" by auto
        then have "q \<in> set (xs @ p # ys)" by auto
        from carry_wfD(5) [OF wf this q(2)]
        obtain b where b: "b \<in> set ?bs" "b_id b = k'" "carriedBy b = Some (p_id q)" by blast
        have "k' \<noteq> k"
        proof
          assume "k' = k"
          with b b2 have "b = b2" by (intro distinct_same_key [OF dist]) simp_all
          with b b2 have "p_id q = p_id p" by simp
          with distinct_zipper [OF carry_wfD(1) [OF wf] other] show False by simp
        qed
        with b have "b \<in> set (balls s')" by (simp add: bs' rest)
        with b show ?thesis by blast
      qed
    qed
  qed
qed

lemma score_goal_held:
  assumes held: "all_held (xs @ p # ys) (balls s)" and wf: "carry_wf (xs @ p # ys) (balls s)"
    and fresh: "uuidv4 env (uuidCalls s) \<notin> b_id ` set (balls s)"
    and r: "score_goal env p s = (p', s')"
  shows "all_held (xs @ p' # ys) (balls s')"
proof -
  from score_goal_cases [of env p s]
  consider (same) "score_goal env p s = (p, s)"
    | (goal) k where "carryingBallId p = Some k" "k \<noteq> []"
        "fst (score_goal env p s) = p\<lparr>score := score p + 1, carryingBallId := None\<rparr>"
        "if k \<in> b_id ` set (balls s)
         then balls (snd (score_goal env p s)) =
                map_set b_id (map_delete b_id (balls s) k)
                  \<lparr>b_id = uuidv4 env (uuidCalls s),
                   b_x = fst (randInField env (randomCalls s)),
                   b_y = snd (randInField env (randomCalls s)), carriedBy = None\<rparr>
         else snd (score_goal env p s) = s"
    by blast
  then show ?thesis
  proof cases
    case same
    with r held show ?thesis by simp
  next
    case goal
    let ?bs = "balls s"
    let ?nb = "\<lparr>b_id = uuidv4 env (uuidCalls s), b_x = fst (randInField env (randomCalls s)),
                b_y = snd (randInField env (randomCalls s)), carriedBy = None\<rparr>"
    let ?rest = "map_delete b_id ?bs k"
    note dist = carry_wfD(2) [OF wf]
    have "p \<in> set (xs @ p # ys)" by simp
    from carry_wfD(5) [OF wf this goal(1)] have present: "k \<in> b_id ` set ?bs" by auto
    have fresh': "b_id ?nb \<notin> b_id ` set ?rest"
      using fresh keys_map_delete_subset [of b_id ?bs k] by auto
    have bs': "balls s' = ?rest @ [?nb]"
      using goal(4) present r map_set_fresh [OF fresh'] by simp
    have rest: "set ?rest = {x \<in> set ?bs. b_id x \<noteq> k}" by (rule set_map_delete [OF dist])
    show ?thesis
    proof (rule all_heldI)
      fix b i assume b: "b \<in> set (balls s')" "carriedBy b = Some i"
      then have "b \<noteq> ?nb" by auto
      with b(1) have old: "b \<in> set ?bs" "b_id b \<noteq> k" by (simp_all add: bs' rest)
      from all_heldD [OF held old(1) b(2)] obtain q where
        q: "q \<in> set (xs @ p # ys)" "p_id q = i" "carryingBallId q = Some (b_id b)" by blast
      with old(2) goal(1) have "carryingBallId q \<noteq> carryingBallId p" by simp
      from other_holder [OF q(1) this] q(2,3)
      show "\<exists>p\<in>set (xs @ p' # ys). p_id p = i \<and> carryingBallId p = Some (b_id b)" by blast
    qed
  qed
qed


lemma in_set_update:
  assumes "y \<in> set (xs[n := v])"
  shows "y = v \<or> (\<exists>m<length xs. m \<noteq> n \<and> y = xs ! m)"
proof -
  from assms obtain m where m: "m < length xs" "xs[n := v] ! m = y"
    by (auto simp: in_set_conv_nth)
  show ?thesis
  proof (cases "m = n")
    case True
    with m show ?thesis by simp
  next
    case False
    with m have "y = xs ! m" by simp
    with m(1) False show ?thesis by blast
  qed
qed

lemma pickup_body_wf:
  assumes wf: "carry_wf (xs @ p # ys) bs" and r: "pickup_body p bs = (p', bs')"
  shows "carry_wf (xs @ p' # ys) bs'"
proof -
  from pickup_body_cases [of p bs] r
  consider (same) "p' = p" "bs' = bs"
    | (took) n where "\<not> truthy (carryingBallId p)" "n < length bs" "eligible p (bs ! n)"
        "p' = p\<lparr>carryingBallId := Some (b_id (bs ! n))\<rparr>"
        "bs' = bs[n := (bs ! n)\<lparr>carriedBy := Some (p_id p)\<rparr>]"
    by auto
  then show ?thesis
  proof cases
    case same
    with wf show ?thesis by simp
  next
    case took
    let ?nb = "(bs ! n)\<lparr>carriedBy := Some (p_id p)\<rparr>"
    have ids: "map b_id bs' = map b_id bs"
      unfolding took(5) by (rule map_list_update_same) simp
    have nb: "?nb \<in> set bs'" unfolding took(5) using took(2) by (simp add: set_update_memI)
    have free: "\<not> truthy (carriedBy (bs ! n))" using took(3) by (simp add: eligible_def)
    show ?thesis
    proof (rule carry_wfI)
      show "distinct (map p_id (xs @ p' # ys))" using carry_wfD(1) [OF wf] by (simp add: took(4))
      show "distinct (map b_id bs')" using carry_wfD(2) [OF wf] by (simp only: ids)
      show "p_id q \<noteq> []" if "q \<in> set (xs @ p' # ys)" for q
        using that carry_wfD(3) [OF wf, of q] carry_wfD(3) [OF wf, of p] by (auto simp: took(4))
      show "b_id b \<noteq> []" if "b \<in> set bs'" for b
      proof -
        from that have "b_id b \<in> set (map b_id bs')" by simp
        then have "b_id b \<in> set (map b_id bs)" by (simp only: ids)
        then obtain b0 where "b0 \<in> set bs" "b_id b0 = b_id b" by auto
        with carry_wfD(4) [OF wf] show ?thesis by metis
      qed
      show "\<exists>b\<in>set bs'. b_id b = k' \<and> carriedBy b = Some (p_id q)"
        if q: "q \<in> set (xs @ p' # ys)" "carryingBallId q = Some k'" for q k'
      proof (cases "q = p'")
        case True
        with q(2) have "k' = b_id (bs ! n)" by (simp add: took(4))
        moreover have "p_id q = p_id p" using True by (simp add: took(4))
        ultimately have "b_id ?nb = k' \<and> carriedBy ?nb = Some (p_id q)" by simp
        with nb show ?thesis by blast
      next
        case False
        with q(1) have "q \<in> set (xs @ p # ys)" by auto
        from carry_wfD(5) [OF wf this q(2)] carry_wfD(3) [OF wf this]
        obtain b where b: "b \<in> set bs" "b_id b = k'" "carriedBy b = Some (p_id q)" "p_id q \<noteq> []"
          by blast
        then obtain m where m: "m < length bs" "bs ! m = b" by (auto simp: in_set_conv_nth)
        have "m \<noteq> n" using b(3,4) m(2) free by auto
        with m have "bs' ! m = b" "m < length bs'" by (simp_all add: took(5))
        then have "b \<in> set bs'" by (metis nth_mem)
        with b show ?thesis by blast
      qed
    qed
  qed
qed

lemma pickup_body_held:
  assumes held: "all_held (xs @ p # ys) bs" and wf: "carry_wf (xs @ p # ys) bs"
    and r: "pickup_body p bs = (p', bs')"
  shows "all_held (xs @ p' # ys) bs'"
proof -
  from pickup_body_cases [of p bs] r
  consider (same) "p' = p" "bs' = bs"
    | (took) n where "\<not> truthy (carryingBallId p)" "n < length bs" "eligible p (bs ! n)"
        "p' = p\<lparr>carryingBallId := Some (b_id (bs ! n))\<rparr>"
        "bs' = bs[n := (bs ! n)\<lparr>carriedBy := Some (p_id p)\<rparr>]"
    by auto
  then show ?thesis
  proof cases
    case same
    with held show ?thesis by simp
  next
    case took
    let ?nb = "(bs ! n)\<lparr>carriedBy := Some (p_id p)\<rparr>"
    show ?thesis
    proof (rule all_heldI)
      fix b i assume b: "b \<in> set bs'" "carriedBy b = Some i"
      from in_set_update [OF b(1) [unfolded took(5)]]
      consider (new) "b = ?nb" | (old) m where "m < length bs" "m \<noteq> n" "b = bs ! m" by blast
      then show "\<exists>q\<in>set (xs @ p' # ys). p_id q = i \<and> carryingBallId q = Some (b_id b)"
      proof cases
        case new
        with b(2) have "p_id p' = i \<and> carryingBallId p' = Some (b_id b)" by (simp add: took(4))
        then show ?thesis by auto
      next
        case old
        then have bm: "b \<in> set bs" by simp
        from all_heldD [OF held bm b(2)] obtain q where
          q: "q \<in> set (xs @ p # ys)" "p_id q = i" "carryingBallId q = Some (b_id b)" by blast
        have "b_id b \<noteq> []" by (rule carry_wfD(4) [OF wf bm])
        have "carryingBallId q \<noteq> carryingBallId p"
        proof
          assume "carryingBallId q = carryingBallId p"
          with q(3) have "carryingBallId p = Some (b_id b)" by simp
          with \<open>b_id b \<noteq> []\<close> have "truthy (carryingBallId p)" by simp
          with took(1) show False by simp
        qed
        from other_holder [OF q(1) this] q(2,3) show ?thesis by blast
      qed
    qed
  qed
qed


subsection \<open>The loops keep the carry relation\<close>

lemma player_tick_wf:
  assumes wf: "carry_wf (xs @ p # ys) (balls s)"
    and fresh: "uuidv4 env (uuidCalls s) \<notin> b_id ` set (balls s)" "uuidv4 env (uuidCalls s) \<noteq> []"
    and r: "player_tick env p s = (p', s')"
  shows "carry_wf (xs @ p' # ys) (balls s')"
    and "all_held (xs @ p # ys) (balls s) \<Longrightarrow> all_held (xs @ p' # ys) (balls s')"
proof -
  let ?s = "s\<lparr>balls := follow (move p) (balls s)\<rparr>"
  have wf1: "carry_wf (xs @ move p # ys) (balls ?s)"
    using carry_wf_same_player [OF wf, of "move p"] carry_wf_same_balls [OF follow_carry]
    by simp
  have "b_id ` set (balls ?s) = b_id ` set (balls s)" by (simp; metis follow_ids set_map)
  with fresh have fresh1: "uuidv4 env (uuidCalls ?s) \<notin> b_id ` set (balls ?s)"
    "uuidv4 env (uuidCalls ?s) \<noteq> []" by simp_all
  from r have r1: "score_goal env (move p) ?s = (p', s')" by (simp add: player_tick_def Let_def)
  from score_goal_wf [OF wf1 fresh1 r1] show "carry_wf (xs @ p' # ys) (balls s')" .
  assume "all_held (xs @ p # ys) (balls s)"
  then have "all_held (xs @ move p # ys) (balls ?s)"
    using all_held_same_player [of xs p ys "balls s" "move p"] all_held_same_balls [OF follow_carry]
    by simp
  from score_goal_held [OF this wf1 fresh1(1) r1] show "all_held (xs @ p' # ys) (balls s')" .
qed

lemma move_loop_wf:
  "inj (uuidv4 env) \<Longrightarrow> \<forall>k. uuidv4 env k \<noteq> [] \<Longrightarrow> ball_ids_drawn env s \<Longrightarrow>
     carry_wf (ds @ ps) (balls s) \<Longrightarrow> move_loop env ps s = (ps', s') \<Longrightarrow>
     carry_wf (ds @ ps') (balls s')
     \<and> (all_held (ds @ ps) (balls s) \<longrightarrow> all_held (ds @ ps') (balls s'))"
proof (induction ps arbitrary: ds s ps' s')
  case Nil
  then show ?case by simp
next
  case (Cons p ps)
  obtain p1 s1 where t: "player_tick env p s = (p1, s1)" by (cases "player_tick env p s")
  obtain ps2 s2 where l: "move_loop env ps s1 = (ps2, s2)" by (cases "move_loop env ps s1")
  from Cons.prems(5) t l have res: "ps' = p1 # ps2" "s' = s2" by simp_all
  have fresh: "uuidv4 env (uuidCalls s) \<notin> b_id ` set (balls s)" "uuidv4 env (uuidCalls s) \<noteq> []"
    using fresh_uuid [OF Cons.prems(1)] Cons.prems(2,3) by (simp_all add: ball_ids_drawn_def)
  note step = player_tick_wf [OF Cons.prems(4) fresh t]
  have drawn1: "ball_ids_drawn env s1" by (rule player_tick_balls(2) [OF Cons.prems(1,3) t])
  from step(1) have "carry_wf ((ds @ [p1]) @ ps) (balls s1)" by simp
  from Cons.IH [OF Cons.prems(1,2) drawn1 this l] step(2) show ?case by (simp add: res)
qed

lemma pickup_loop_wf:
  "carry_wf (ds @ ps) bs \<Longrightarrow> pickup_loop ps bs = (ps', bs') \<Longrightarrow>
     carry_wf (ds @ ps') bs' \<and> (all_held (ds @ ps) bs \<longrightarrow> all_held (ds @ ps') bs')"
proof (induction ps arbitrary: ds bs ps' bs')
  case Nil
  then show ?case by simp
next
  case (Cons p ps)
  obtain p1 bs1 where t: "pickup_body p bs = (p1, bs1)" by (cases "pickup_body p bs")
  obtain ps2 bs2 where l: "pickup_loop ps bs1 = (ps2, bs2)" by (cases "pickup_loop ps bs1")
  from Cons.prems(2) t l have res: "ps' = p1 # ps2" "bs' = bs2" by simp_all
  have wf1: "carry_wf (ds @ p1 # ps) bs1" by (rule pickup_body_wf [OF Cons.prems(1) t])
  have held1: "all_held (ds @ p # ps) bs \<Longrightarrow> all_held (ds @ p1 # ps) bs1"
    by (rule pickup_body_held [OF _ Cons.prems(1) t])
  from wf1 have "carry_wf ((ds @ [p1]) @ ps) bs1" by simp
  from Cons.IH [OF this l] held1 show ?case by (simp add: res)
qed


lemma same_player_at:
  assumes "n < length ps" and "p_id v = p_id (ps ! n)" and "carryingBallId v = carryingBallId (ps ! n)"
  shows "carry_wf ps bs \<Longrightarrow> carry_wf (ps[n := v]) bs"
    and "all_held ps bs \<Longrightarrow> all_held (ps[n := v]) bs"
proof -
  have ps: "ps = take n ps @ ps ! n # drop (Suc n) ps" using assms(1) by (rule id_take_nth_drop)
  have up: "ps[n := v] = take n ps @ v # drop (Suc n) ps" using assms(1) by (rule upd_conv_take_nth_drop)
  show "carry_wf ps bs \<Longrightarrow> carry_wf (ps[n := v]) bs"
    using carry_wf_same_player [of "take n ps" "ps ! n" "drop (Suc n) ps" bs v] assms(2,3) ps up
    by simp
  show "all_held ps bs \<Longrightarrow> all_held (ps[n := v]) bs"
    using all_held_same_player [of "take n ps" "ps ! n" "drop (Suc n) ps" bs v] assms(2,3) ps up
    by simp
qed

lemma drop_ball_at:
  assumes n: "n < length ps" and wf: "carry_wf ps bs" and d: "drop_ball (ps ! n) bs = (p', bs')"
  shows "carry_wf (ps[n := p']) bs'" and "all_held ps bs \<Longrightarrow> all_held (ps[n := p']) bs'"
proof -
  have ps: "ps = take n ps @ ps ! n # drop (Suc n) ps" using n by (rule id_take_nth_drop)
  have up: "ps[n := p'] = take n ps @ p' # drop (Suc n) ps" using n by (rule upd_conv_take_nth_drop)
  from wf ps have wf': "carry_wf (take n ps @ ps ! n # drop (Suc n) ps) bs" by simp
  from drop_ball_wf [OF wf' d] show "carry_wf (ps[n := p']) bs'" by (simp only: up)
  assume "all_held ps bs"
  with ps have "all_held (take n ps @ ps ! n # drop (Suc n) ps) bs" by simp
  from drop_ball_held [OF this wf' d] show "all_held (ps[n := p']) bs'" by (simp only: up)
qed

lemma collide_pair_wf:
  assumes idx: "i < length ps" "j < length ps" "i \<noteq> j" and wf: "carry_wf ps bs"
  shows "carry_wf (fst (collide_pair i j (ps, bs))) (snd (collide_pair i j (ps, bs)))"
    and "all_held ps bs \<Longrightarrow>
           all_held (fst (collide_pair i j (ps, bs))) (snd (collide_pair i j (ps, bs)))"
proof -
  let ?hit = "js_lt (dist2 (p_x (ps ! i)) (p_y (ps ! i)) (p_x (ps ! j)) (p_y (ps ! j))) collisionDist2"
  have "carry_wf (fst (collide_pair i j (ps, bs))) (snd (collide_pair i j (ps, bs)))
    \<and> (all_held ps bs \<longrightarrow>
           all_held (fst (collide_pair i j (ps, bs))) (snd (collide_pair i j (ps, bs))))"
  proof (cases ?hit)
    case False
    then have "collide_pair i j (ps, bs) = (ps, bs)" by (simp add: collide_pair_def Let_def)
    with wf show ?thesis by simp
  next
    case True
    obtain p1a p2a where
      res: "collide_pair i j (ps, bs) =
              (ps[i := fst (drop_ball p1a bs), j := fst (drop_ball p2a (snd (drop_ball p1a bs)))],
               snd (drop_ball p2a (snd (drop_ball p1a bs))))"
      and a: "p_id p1a = p_id (ps ! i)" "carryingBallId p1a = carryingBallId (ps ! i)"
      and b: "p_id p2a = p_id (ps ! j)" "carryingBallId p2a = carryingBallId (ps ! j)"
    proof -
      let ?dx = "p_x (ps ! i) - p_x (ps ! j)" and ?dy = "p_y (ps ! i) - p_y (ps ! j)"
      let ?mag = "js_or (Math_sqrt (?dx * ?dx + ?dy * ?dy)) (Num (1 / 10000))"
      let ?ov = "Math_sqrt (collisionDist2
          - dist2 (p_x (ps ! i)) (p_y (ps ! i)) (p_x (ps ! j)) (p_y (ps ! j))) / Num 2"
      let ?p1a = "(ps ! i)\<lparr>p_x := p_x (ps ! i) + ?dx / ?mag * ?ov, p_y := p_y (ps ! i) + ?dy / ?mag * ?ov\<rparr>"
      let ?p2a = "(ps ! j)\<lparr>p_x := p_x (ps ! j) - ?dx / ?mag * ?ov, p_y := p_y (ps ! j) - ?dy / ?mag * ?ov\<rparr>"
      have "collide_pair i j (ps, bs) =
              (ps[i := fst (drop_ball ?p1a bs), j := fst (drop_ball ?p2a (snd (drop_ball ?p1a bs)))],
               snd (drop_ball ?p2a (snd (drop_ball ?p1a bs))))"
        using True by (simp add: collide_pair_def Let_def split_beta)
      moreover have "p_id ?p1a = p_id (ps ! i)" "carryingBallId ?p1a = carryingBallId (ps ! i)"
        "p_id ?p2a = p_id (ps ! j)" "carryingBallId ?p2a = carryingBallId (ps ! j)" by simp_all
      ultimately show ?thesis using that by blast
    qed
    let ?p1b = "fst (drop_ball p1a bs)" and ?bs1 = "snd (drop_ball p1a bs)"
    let ?p2b = "fst (drop_ball p2a ?bs1)" and ?bs2 = "snd (drop_ball p2a ?bs1)"
    let ?ps1 = "ps[i := p1a]" and ?ps2 = "ps[i := ?p1b]"
    let ?ps3 = "?ps2[j := p2a]"
    have wf1: "carry_wf ?ps1 bs" by (rule same_player_at(1) [OF idx(1) a wf])
    have d1: "drop_ball (?ps1 ! i) bs = (?p1b, ?bs1)" using idx(1) by simp
    have "carry_wf (?ps1[i := ?p1b]) ?bs1" using drop_ball_at(1) [OF _ wf1 d1] idx(1) by simp
    then have wf2: "carry_wf ?ps2 ?bs1" by simp
    have j2: "j < length ?ps2" "?ps2 ! j = ps ! j" using idx by simp_all
    have wf3: "carry_wf ?ps3 ?bs1"
      using same_player_at(1) [OF j2(1) _ _ wf2, of p2a] b j2(2) by simp
    have d3: "drop_ball (?ps3 ! j) ?bs1 = (?p2b, ?bs2)" using idx(2) by simp
    have "carry_wf (?ps3[j := ?p2b]) ?bs2" using drop_ball_at(1) [OF _ wf3 d3] idx(2) by simp
    then have wf4: "carry_wf (?ps2[j := ?p2b]) ?bs2" by simp
    have held4: "all_held (?ps2[j := ?p2b]) ?bs2" if held: "all_held ps bs"
    proof -
      have h1: "all_held ?ps1 bs" by (rule same_player_at(2) [OF idx(1) a held])
      have "all_held (?ps1[i := ?p1b]) ?bs1" using drop_ball_at(2) [OF _ wf1 d1 h1] idx(1) by simp
      then have h2: "all_held ?ps2 ?bs1" by simp
      have h3: "all_held ?ps3 ?bs1"
        using same_player_at(2) [OF j2(1) _ _ h2, of p2a] b j2(2) by simp
      have "all_held (?ps3[j := ?p2b]) ?bs2" using drop_ball_at(2) [OF _ wf3 d3 h3] idx(2) by simp
      then show ?thesis by simp
    qed
    from wf4 held4 show ?thesis by (simp add: res)
  qed
  then show "carry_wf (fst (collide_pair i j (ps, bs))) (snd (collide_pair i j (ps, bs)))"
    and "all_held ps bs \<Longrightarrow>
           all_held (fst (collide_pair i j (ps, bs))) (snd (collide_pair i j (ps, bs)))"
    by blast+
qed


lemma collide_pair_length: "length (fst (collide_pair i j st)) = length (fst st)"
  using collide_pair_frame [of i j st] by (metis length_map)

lemma collide_inner_wf:
  "n = length (fst st) \<Longrightarrow> i < j \<Longrightarrow> carry_wf (fst st) (snd st) \<Longrightarrow>
     carry_wf (fst (collide_inner n i j st)) (snd (collide_inner n i j st))
     \<and> (all_held (fst st) (snd st) \<longrightarrow>
          all_held (fst (collide_inner n i j st)) (snd (collide_inner n i j st)))"
proof (induction n i j st rule: collide_inner.induct)
  case (1 n i j st)
  show ?case
  proof (cases "j < n")
    case False
    then show ?thesis using "1.prems" by (subst (1 2 3 4) collide_inner.simps) simp
  next
    case True
    obtain ps bs where st: "st = (ps, bs)" by (cases st)
    from True "1.prems" st have idx: "i < length ps" "j < length ps" "i \<noteq> j" by simp_all
    from "1.prems" st have wf: "carry_wf ps bs" by simp
    let ?st = "collide_pair i j st"
    have wf': "carry_wf (fst ?st) (snd ?st)"
      using collide_pair_wf(1) [OF idx wf] by (simp add: st)
    have held': "all_held (fst st) (snd st) \<Longrightarrow> all_held (fst ?st) (snd ?st)"
      using collide_pair_wf(2) [OF idx wf] by (simp add: st)
    have n: "n = length (fst ?st)" using "1.prems"(1) by (simp add: collide_pair_length)
    from "1.IH" [OF True n] "1.prems"(2) wf'
    have "carry_wf (fst (collide_inner n i (j + 1) ?st)) (snd (collide_inner n i (j + 1) ?st))
      \<and> (all_held (fst ?st) (snd ?st) \<longrightarrow>
          all_held (fst (collide_inner n i (j + 1) ?st)) (snd (collide_inner n i (j + 1) ?st)))"
      by simp
    with held' True show ?thesis by (subst (1 2 3 4) collide_inner.simps) simp
  qed
qed

lemma collide_inner_length: "length (fst (collide_inner n i j st)) = length (fst st)"
  using collide_inner_frame [of n i j st] by (metis length_map)

lemma collide_outer_wf:
  "n = length (fst st) \<Longrightarrow> carry_wf (fst st) (snd st) \<Longrightarrow>
     carry_wf (fst (collide_outer n i st)) (snd (collide_outer n i st))
     \<and> (all_held (fst st) (snd st) \<longrightarrow>
          all_held (fst (collide_outer n i st)) (snd (collide_outer n i st)))"
proof (induction n i st rule: collide_outer.induct)
  case (1 n i st)
  show ?case
  proof (cases "i < n")
    case False
    then show ?thesis using "1.prems" by (subst (1 2 3 4) collide_outer.simps) simp
  next
    case True
    let ?st = "collide_inner n i (i + 1) st"
    have inner: "carry_wf (fst ?st) (snd ?st)
      \<and> (all_held (fst st) (snd st) \<longrightarrow> all_held (fst ?st) (snd ?st))"
      using collide_inner_wf [of n st i "i + 1"] "1.prems" by simp
    have n: "n = length (fst ?st)" using "1.prems"(1) by (simp add: collide_inner_length)
    from "1.IH" [OF True n] inner
    have "carry_wf (fst (collide_outer n (i + 1) ?st)) (snd (collide_outer n (i + 1) ?st))
      \<and> (all_held (fst ?st) (snd ?st) \<longrightarrow>
          all_held (fst (collide_outer n (i + 1) ?st)) (snd (collide_outer n (i + 1) ?st)))"
      by simp
    with inner True show ?thesis by (subst (1 2 3 4) collide_outer.simps) simp
  qed
qed

subsection \<open>The tick keeps the carry relation\<close>

lemma update_wf:
  assumes "inj (uuidv4 env)" and "\<forall>k. uuidv4 env k \<noteq> []" and "ball_ids_drawn env s"
    and wf: "carry_wf (players s) (balls s)"
  shows "carry_wf (players (update env s)) (balls (update env s))"
    and "all_held (players s) (balls s) \<Longrightarrow>
           all_held (players (update env s)) (balls (update env s))"
proof -
  let ?m = "move_loop env (players s) s"
  let ?pk = "pickup_loop (fst ?m) (balls (snd ?m))"
  let ?c = "collide_outer (length (fst ?pk)) 0 ?pk"
  have m: "carry_wf (fst ?m) (balls (snd ?m))
    \<and> (all_held (players s) (balls s) \<longrightarrow> all_held (fst ?m) (balls (snd ?m)))"
    using move_loop_wf [OF assms(1,2,3), of "[]" "players s" "fst ?m" "snd ?m"] wf by simp
  have pk: "carry_wf (fst ?pk) (snd ?pk)
    \<and> (all_held (fst ?m) (balls (snd ?m)) \<longrightarrow> all_held (fst ?pk) (snd ?pk))"
    using pickup_loop_wf [of "[]" "fst ?m" "balls (snd ?m)" "fst ?pk" "snd ?pk"] m by simp
  have c: "carry_wf (fst ?c) (snd ?c)
    \<and> (all_held (fst ?pk) (snd ?pk) \<longrightarrow> all_held (fst ?c) (snd ?c))"
    using collide_outer_wf [of "length (fst ?pk)" ?pk 0] pk by simp
  from c show "carry_wf (players (update env s)) (balls (update env s))"
    by (simp add: update_expand Let_def)
  assume "all_held (players s) (balls s)"
  with m pk c show "all_held (players (update env s)) (balls (update env s))"
    by (simp add: update_expand Let_def)
qed


subsection \<open>The handlers and the carry relation\<close>

lemma init_balls_free:
  "inj (uuidv4 env) \<Longrightarrow> \<forall>k. uuidv4 env k \<noteq> [] \<Longrightarrow> ball_ids_drawn env s \<Longrightarrow>
     distinct (map b_id (balls s)) \<Longrightarrow> (\<forall>b\<in>set (balls s). b_id b \<noteq> [] \<and> carriedBy b = None) \<Longrightarrow>
     distinct (map b_id (balls (init_balls env i s)))
     \<and> (\<forall>b\<in>set (balls (init_balls env i s)). b_id b \<noteq> [] \<and> carriedBy b = None)"
proof (induction env i s rule: init_balls.induct)
  case (1 env i s)
  show ?case
  proof (cases "i < BALL_COUNT")
    case False
    then show ?thesis using "1.prems" by (subst (1 2) init_balls.simps) simp
  next
    case True
    let ?b = "fst (createBall env s)"
    let ?s1 = "snd (createBall env s)\<lparr>balls := map_set b_id (balls s) ?b\<rparr>"
    have fresh: "b_id ?b \<notin> b_id ` set (balls s)"
      using fresh_uuid [OF "1.prems"(1)] "1.prems"(3) by (simp add: ball_ids_drawn_def createBall_fst)
    have bs: "balls ?s1 = balls s @ [?b]" using map_set_fresh [OF fresh] by simp
    have drawn: "ball_ids_drawn env ?s1"
      using "1.prems"(3) unfolding ball_ids_drawn_def bs
      by (auto simp: createBall_fst createBall_snd lessThan_Suc)
    have dist: "distinct (map b_id (balls ?s1))" using "1.prems"(4) fresh by (simp add: bs)
    have free: "\<forall>b\<in>set (balls ?s1). b_id b \<noteq> [] \<and> carriedBy b = None"
      using "1.prems"(2,5) unfolding bs by (auto simp: createBall_fst)
    have s1: "(case createBall env s of (ball, s') \<Rightarrow> s'\<lparr>balls := map_set b_id (balls s') ball\<rparr>) = ?s1"
      by (simp add: split_beta createBall_snd)
    from "1.IH" [OF True "1.prems"(1,2)] drawn dist free s1
    have "distinct (map b_id (balls (init_balls env (i + 1) ?s1)))
      \<and> (\<forall>b\<in>set (balls (init_balls env (i + 1) ?s1)). b_id b \<noteq> [] \<and> carriedBy b = None)"
      by simp
    with True s1 show ?thesis by (subst (1 2) init_balls.simps) simp
  qed
qed

lemma startup_wf:
  assumes "inj (uuidv4 env)" and "\<forall>k. uuidv4 env k \<noteq> []"
  shows "carry_wf (players (startup env)) (balls (startup env))"
    and "all_held (players (startup env)) (balls (startup env))"
proof -
  have free: "distinct (map b_id (balls (startup env)))
    \<and> (\<forall>b\<in>set (balls (startup env)). b_id b \<noteq> [] \<and> carriedBy b = None)"
    using init_balls_free [OF assms, of empty_state 0]
    by (simp add: startup_def ball_ids_drawn_def empty_state_def)
  have none: "players (startup env) = []"
    using init_balls_players [of env 0 empty_state] by (simp add: startup_def empty_state_def)
  from free show "carry_wf (players (startup env)) (balls (startup env))"
    by (simp add: carry_wf_def none)
  from free show "all_held (players (startup env)) (balls (startup env))"
    by (simp add: all_held_def none)
qed

lemma on_connection_wf:
  assumes inj: "inj (uuidv4 env)" and ne: "\<forall>k. uuidv4 env k \<noteq> []"
    and drawn: "player_ids_drawn env s" and wf: "carry_wf (players s) (balls s)"
  shows "carry_wf (players (on_connection env s)) (balls (on_connection env s))"
    and "all_held (players s) (balls s) \<Longrightarrow>
           all_held (players (on_connection env s)) (balls (on_connection env s))"
proof -
  let ?p = "createPlayer (uuidv4 env (uuidCalls s)) (TEAMS ! (nextTeamIndex s mod length TEAMS))"
  have fresh: "p_id ?p \<notin> p_id ` set (players s)"
    using fresh_uuid [OF inj] drawn by (simp add: player_ids_drawn_def createPlayer_def)
  have ps: "players (on_connection env s) = players s @ [?p]"
    using map_set_fresh [OF fresh] by (simp add: on_connection_def Let_def)
  have bs: "balls (on_connection env s) = balls s" by (simp add: on_connection_def Let_def)
  have p: "p_id ?p \<noteq> []" "carryingBallId ?p = None" using ne by (simp_all add: createPlayer_def)
  show "carry_wf (players (on_connection env s)) (balls (on_connection env s))"
    unfolding ps bs
  proof (rule carry_wfI)
    show "distinct (map p_id (players s @ [?p]))" using carry_wfD(1) [OF wf] fresh by simp
    show "distinct (map b_id (balls s))" by (rule carry_wfD(2) [OF wf])
    show "q \<in> set (players s @ [?p]) \<Longrightarrow> p_id q \<noteq> []" for q
      using carry_wfD(3) [OF wf, of q] p(1) by auto
    show "b \<in> set (balls s) \<Longrightarrow> b_id b \<noteq> []" for b by (rule carry_wfD(4) [OF wf])
    show "\<exists>b\<in>set (balls s). b_id b = k \<and> carriedBy b = Some (p_id q)"
      if "q \<in> set (players s @ [?p])" "carryingBallId q = Some k" for q k
    proof -
      from that p(2) have "q \<in> set (players s)" by auto
      from carry_wfD(5) [OF wf this that(2)] show ?thesis .
    qed
  qed
  assume held: "all_held (players s) (balls s)"
  show "all_held (players (on_connection env s)) (balls (on_connection env s))"
    unfolding ps bs
  proof (rule all_heldI)
    fix b i
    assume "b \<in> set (balls s)" "carriedBy b = Some i"
    from all_heldD [OF held this]
    obtain q where "q \<in> set (players s)" "p_id q = i" "carryingBallId q = Some (b_id b)" by blast
    then show "\<exists>p\<in>set (players s @ [?p]). p_id p = i \<and> carryingBallId p = Some (b_id b)"
      by auto
  qed
qed

lemma same_image: "f ` A = f ` B \<Longrightarrow> x \<in> A \<Longrightarrow> \<exists>y\<in>B. f y = f x"
  by (metis imageE imageI)

lemma on_message_wf:
  shows "carry_wf (players s) (balls s) \<Longrightarrow>
           carry_wf (players (fst (on_message env j d s))) (balls (fst (on_message env j d s)))"
    and "all_held (players s) (balls s) \<Longrightarrow>
           all_held (players (fst (on_message env j d s))) (balls (fst (on_message env j d s)))"
proof -
  let ?s = "fst (on_message env j d s)"
  have ids: "map p_id (players ?s) = map p_id (players s)" by (rule on_message_frame(1))
  have bs: "balls ?s = balls s" by (rule on_message_frame(5))
  have pairs: "(\<lambda>p. (p_id p, carryingBallId p)) ` set (players ?s)
             = (\<lambda>p. (p_id p, carryingBallId p)) ` set (players s)"
  proof -
    have "map (\<lambda>p. (p_id p, carryingBallId p)) (players ?s)
        = map (\<lambda>p. (p_id p, carryingBallId p)) (players s)"
      by (auto simp: on_message_def map_modify_field split: inbound.splits option.splits)
    then have "set (map (\<lambda>p. (p_id p, carryingBallId p)) (players ?s))
        = set (map (\<lambda>p. (p_id p, carryingBallId p)) (players s))" by simp
    then show ?thesis by simp
  qed
  have there: "\<exists>q\<in>set (players s). p_id q = p_id p \<and> carryingBallId q = carryingBallId p"
    if "p \<in> set (players ?s)" for p
    using same_image [OF pairs that] by simp
  have again: "\<exists>q\<in>set (players ?s). p_id q = p_id p \<and> carryingBallId q = carryingBallId p"
    if "p \<in> set (players s)" for p
    using same_image [OF pairs [symmetric] that] by simp
  have wf': "carry_wf (players ?s) (balls s)" if wf: "carry_wf (players s) (balls s)"
  proof (rule carry_wfI)
    show "distinct (map p_id (players ?s))" using carry_wfD(1) [OF wf] by (simp only: ids)
    show "distinct (map b_id (balls s))" by (rule carry_wfD(2) [OF wf])
    show "p_id p \<noteq> []" if "p \<in> set (players ?s)" for p
      using there [OF that] carry_wfD(3) [OF wf] by metis
    show "b \<in> set (balls s) \<Longrightarrow> b_id b \<noteq> []" for b by (rule carry_wfD(4) [OF wf])
    show "\<exists>b\<in>set (balls s). b_id b = k \<and> carriedBy b = Some (p_id p)"
      if "p \<in> set (players ?s)" "carryingBallId p = Some k" for p k
    proof -
      from there [OF that(1)] obtain q where
        q: "q \<in> set (players s)" "p_id q = p_id p" "carryingBallId q = carryingBallId p" by blast
      from carry_wfD(5) [OF wf q(1), of k] q(2,3) that(2) show ?thesis by simp
    qed
  qed
  have held': "all_held (players ?s) (balls s)" if held: "all_held (players s) (balls s)"
  proof (rule all_heldI)
    fix b i
    assume "b \<in> set (balls s)" "carriedBy b = Some i"
    from all_heldD [OF held this]
    obtain q where q: "q \<in> set (players s)" "p_id q = i" "carryingBallId q = Some (b_id b)" by blast
    from again [OF q(1)] q(2,3)
    show "\<exists>p\<in>set (players ?s). p_id p = i \<and> carryingBallId p = Some (b_id b)" by auto
  qed
  show "carry_wf (players s) (balls s) \<Longrightarrow> carry_wf (players ?s) (balls ?s)"
    using wf' by (simp only: bs)
  show "all_held (players s) (balls s) \<Longrightarrow> all_held (players ?s) (balls ?s)"
    using held' by (simp only: bs)
qed

lemma on_close_wf:
  assumes wf: "carry_wf (players s) (balls s)"
  shows "carry_wf (players (on_close i s)) (balls (on_close i s))"
proof -
  have sub: "set (map_delete p_id (players s) i) \<subseteq> set (players s)"
    by (rule set_map_delete_subset)
  show ?thesis
    unfolding on_close_def
  proof (simp, rule carry_wfI)
    show "distinct (map p_id (map_delete p_id (players s) i))"
      by (rule distinct_map_delete [OF carry_wfD(1) [OF wf]])
    show "distinct (map b_id (balls s))" by (rule carry_wfD(2) [OF wf])
    show "p \<in> set (map_delete p_id (players s) i) \<Longrightarrow> p_id p \<noteq> []" for p
      using sub carry_wfD(3) [OF wf, of p] by blast
    show "b \<in> set (balls s) \<Longrightarrow> b_id b \<noteq> []" for b by (rule carry_wfD(4) [OF wf])
    show "p \<in> set (map_delete p_id (players s) i) \<Longrightarrow> carryingBallId p = Some k \<Longrightarrow>
        \<exists>b\<in>set (balls s). b_id b = k \<and> carriedBy b = Some (p_id p)" for p k
      using sub carry_wfD(5) [OF wf, of p k] by blast
  qed
qed

text \<open>
  Every handler keeps the first half of the relation (a carrying player has its ball,
  and the ball names it); every handler but the close keeps the second half too.
\<close>

lemma step_wf:
  assumes "inj (uuidv4 env)" and "\<forall>k. uuidv4 env k \<noteq> []"
    and "ball_ids_drawn env s" and "player_ids_drawn env s"
    and wf: "carry_wf (players s) (balls s)"
  shows "carry_wf (players (step env s e)) (balls (step env s e))"
    and "(\<And>i. e \<noteq> Close i) \<Longrightarrow> all_held (players s) (balls s) \<Longrightarrow>
           all_held (players (step env s e)) (balls (step env s e))"
proof -
  show "carry_wf (players (step env s e)) (balls (step env s e))"
  proof (cases e)
    case Connection
    then show ?thesis using on_connection_wf(1) [OF assms(1,2,4) wf] by simp
  next
    case (Message j d)
    then show ?thesis using on_message_wf(1) [OF wf] by simp
  next
    case (Close i)
    then show ?thesis using on_close_wf [OF wf] by simp
  next
    case Tick
    then show ?thesis using update_wf(1) [OF assms(1,2,3) wf] by simp
  qed
  assume open_: "\<And>i. e \<noteq> Close i" and held: "all_held (players s) (balls s)"
  show "all_held (players (step env s e)) (balls (step env s e))"
  proof (cases e)
    case Connection
    then show ?thesis using on_connection_wf(2) [OF assms(1,2,4) wf held] by simp
  next
    case (Message j d)
    then show ?thesis using on_message_wf(2) [OF held] by simp
  next
    case (Close i)
    with open_ [of i] show ?thesis by simp
  next
    case Tick
    then show ?thesis using update_wf(2) [OF assms(1,2,3) wf held] by simp
  qed
qed

lemma run_wf:
  "inj (uuidv4 env) \<Longrightarrow> \<forall>k. uuidv4 env k \<noteq> [] \<Longrightarrow> ball_ids_drawn env s \<Longrightarrow>
     players_ok env s \<Longrightarrow> carry_wf (players s) (balls s) \<Longrightarrow>
     carry_wf (players (run env s es)) (balls (run env s es))
     \<and> ((\<forall>i. Close i \<notin> set es) \<longrightarrow> all_held (players s) (balls s) \<longrightarrow>
          all_held (players (run env s es)) (balls (run env s es)))"
proof (induction es arbitrary: s)
  case Nil
  then show ?case by simp
next
  case (Cons e es)
  have drawn: "player_ids_drawn env s" using Cons.prems(4) by (simp add: players_ok_def)
  have wf1: "carry_wf (players (step env s e)) (balls (step env s e))"
    by (rule step_wf(1) [OF Cons.prems(1,2,3) drawn Cons.prems(5)])
  have held1: "all_held (players (step env s e)) (balls (step env s e))"
    if "\<forall>i. Close i \<notin> set (e # es)" "all_held (players s) (balls s)"
  proof (rule step_wf(2) [OF Cons.prems(1,2,3) drawn Cons.prems(5) _ that(2)])
    show "e \<noteq> Close i" for i using that(1) by auto
  qed
  from Cons.IH [OF Cons.prems(1,2) step_balls(2) [OF Cons.prems(1,3)]
      step_players_ok [OF Cons.prems(1,4)] wf1] held1
  show ?case by simp
qed

lemma carry_bijectionI:
  assumes wf: "carry_wf (players s) (balls s)" and held: "all_held (players s) (balls s)"
  shows "carry_bijection s"
proof -
  have a: "carriedBy b = Some (p_id p) \<longleftrightarrow> carryingBallId p = Some (b_id b)"
    if b: "b \<in> set (balls s)" and p: "p \<in> set (players s)" for b p
  proof
    assume "carriedBy b = Some (p_id p)"
    from all_heldD [OF held b this]
    obtain q where q: "q \<in> set (players s)" "p_id q = p_id p" "carryingBallId q = Some (b_id b)"
      by blast
    from distinct_same_key [OF carry_wfD(1) [OF wf] q(1) p q(2)] q(3)
    show "carryingBallId p = Some (b_id b)" by simp
  next
    assume "carryingBallId p = Some (b_id b)"
    from carry_wfD(5) [OF wf p this]
    obtain b' where b': "b' \<in> set (balls s)" "b_id b' = b_id b" "carriedBy b' = Some (p_id p)"
      by blast
    from distinct_same_key [OF carry_wfD(2) [OF wf] b'(1) b b'(2)] b'(3)
    show "carriedBy b = Some (p_id p)" by simp
  qed
  have b: "\<exists>p\<in>set (players s). carriedBy b = Some (p_id p)"
    if "b \<in> set (balls s)" "carriedBy b \<noteq> None" for b
  proof -
    from that(2) obtain i where "carriedBy b = Some i" by auto
    from all_heldD [OF held that(1) this] this show ?thesis by auto
  qed
  have c: "\<exists>b\<in>set (balls s). carryingBallId p = Some (b_id b)"
    if "p \<in> set (players s)" "carryingBallId p \<noteq> None" for p
  proof -
    from that(2) obtain k where "carryingBallId p = Some k" by auto
    from carry_wfD(5) [OF wf that(1) this] this show ?thesis by auto
  qed
  have d: "p = q"
    if p: "p \<in> set (players s)" and q: "q \<in> set (players s)"
      and "carryingBallId p \<noteq> None" "carryingBallId p = carryingBallId q" for p q
  proof -
    from that(3) obtain k where k: "carryingBallId p = Some k" by auto
    from carry_wfD(5) [OF wf p k]
    obtain b where b: "b \<in> set (balls s)" "b_id b = k" "carriedBy b = Some (p_id p)" by blast
    from carry_wfD(5) [OF wf q, of k] k that(4)
    obtain b' where b': "b' \<in> set (balls s)" "b_id b' = k" "carriedBy b' = Some (p_id q)" by auto
    from distinct_same_key [OF carry_wfD(2) [OF wf] b(1) b'(1)] b(2) b'(2) have "b = b'" by simp
    with b(3) b'(3) have "p_id p = p_id q" by simp
    from distinct_same_key [OF carry_wfD(1) [OF wf] p q this] show ?thesis .
  qed
  show ?thesis
    unfolding carry_bijection_def using a b c d by blast
qed

text \<open>
  When the id generator never repeats itself and never returns the empty string, the
  first half of the relation holds after every event of every run.
\<close>

lemma server_carry_wf:
  assumes "inj (uuidv4 env)" and "\<forall>k. uuidv4 env k \<noteq> []"
  shows "carry_wf (players (server env es)) (balls (server env es))"
  using run_wf [OF assms startup_balls(2) [OF assms(1)] startup_players_ok
      startup_wf(1) [OF assms], of es]
  unfolding server_def by simp

text \<open>In a run without a close the carry relation is a bijection after every event.\<close>

lemma server_carry_bijection:
  assumes "inj (uuidv4 env)" and "\<forall>k. uuidv4 env k \<noteq> []" and "\<forall>i. Close i \<notin> set es"
  shows "carry_bijection (server env es)"
proof -
  from run_wf [OF assms(1,2) startup_balls(2) [OF assms(1)] startup_players_ok
      startup_wf(1) [OF assms(1,2)], of es] assms(3) startup_wf(2) [OF assms(1,2)]
  show ?thesis unfolding server_def by (intro carry_bijectionI) simp_all
qed

subsection \<open>The collision step, pair by pair\<close>

lemma collide_inner_fold:
  "collide_inner n i j st = foldl (\<lambda>st (a, b). collide_pair a b st) st (map (\<lambda>j. (i, j)) [j..<n])"
proof (induction n i j st rule: collide_inner.induct)
  case (1 n i j st)
  show ?case
  proof (cases "j < n")
    case True
    then have "[j..<n] = j # [j + 1..<n]" by (simp add: upt_conv_Cons)
    with "1.IH" [OF True] True show ?thesis by (subst collide_inner.simps) simp
  next
    case False
    then show ?thesis by (subst collide_inner.simps) simp
  qed
qed

lemma collide_outer_fold:
  "collide_outer n i st =
     foldl (\<lambda>st (a, b). collide_pair a b st) st
       (concat (map (\<lambda>i. map (\<lambda>j. (i, j)) [i + 1..<n]) [i..<n]))"
proof (induction n i st rule: collide_outer.induct)
  case (1 n i st)
  show ?case
  proof (cases "i < n")
    case True
    then have "[i..<n] = i # [i + 1..<n]" by (simp add: upt_conv_Cons)
    with "1.IH" [OF True] True show ?thesis
      by (subst collide_outer.simps) (simp add: collide_inner_fold)
  next
    case False
    then show ?thesis by (subst collide_outer.simps) simp
  qed
qed

lemma collision_step_pairs:
  "collide_outer n 0 st = foldl (\<lambda>st (a, b). collide_pair a b st) st (collision_pairs n)"
  by (simp add: collide_outer_fold collision_pairs_def)



subsection \<open>The movement loop, player by player\<close>

lemma move_loop_append:
  "move_loop env (xs @ ys) s =
     (fst (move_loop env xs s) @ fst (move_loop env ys (snd (move_loop env xs s))),
      snd (move_loop env ys (snd (move_loop env xs s))))"
  by (induction xs arbitrary: s) (simp_all add: split_beta)

lemma move_loop_at:
  assumes "n < length ps"
  shows "move_loop env ps s =
     (let l = move_loop env (take n ps) s;
          t = player_tick env (ps ! n) (snd l);
          r = move_loop env (drop (Suc n) ps) (snd t)
      in (fst l @ fst t # fst r, snd r))"
proof -
  have "ps = take n ps @ (ps ! n # drop (Suc n) ps)" using assms by (simp add: id_take_nth_drop)
  then have "move_loop env ps s = move_loop env (take n ps @ (ps ! n # drop (Suc n) ps)) s"
    by simp
  also have "\<dots> =
     (let l = move_loop env (take n ps) s;
          t = player_tick env (ps ! n) (snd l);
          r = move_loop env (drop (Suc n) ps) (snd t)
      in (fst l @ fst t # fst r, snd r))"
    by (simp only: move_loop_append) (simp add: split_beta Let_def)
  finally show ?thesis .
qed

lemma move_loop_wf_mid:
  "inj (uuidv4 env) \<Longrightarrow> \<forall>k. uuidv4 env k \<noteq> [] \<Longrightarrow> ball_ids_drawn env s \<Longrightarrow>
     carry_wf (ds @ ps @ es) (balls s) \<Longrightarrow> move_loop env ps s = (ps', s') \<Longrightarrow>
     carry_wf (ds @ ps' @ es) (balls s')"
proof (induction ps arbitrary: ds s ps' s')
  case Nil
  then show ?case by simp
next
  case (Cons p ps)
  obtain p1 s1 where t: "player_tick env p s = (p1, s1)" by (cases "player_tick env p s")
  obtain ps2 s2 where l: "move_loop env ps s1 = (ps2, s2)" by (cases "move_loop env ps s1")
  from Cons.prems(5) t l have res: "ps' = p1 # ps2" "s' = s2" by simp_all
  have fresh: "uuidv4 env (uuidCalls s) \<notin> b_id ` set (balls s)" "uuidv4 env (uuidCalls s) \<noteq> []"
    using fresh_uuid [OF Cons.prems(1)] Cons.prems(2,3) by (simp_all add: ball_ids_drawn_def)
  from Cons.prems(4) have "carry_wf (ds @ p # (ps @ es)) (balls s)" by simp
  from player_tick_wf(1) [OF this fresh t] have "carry_wf ((ds @ [p1]) @ ps @ es) (balls s1)"
    by simp
  from Cons.IH [OF Cons.prems(1,2) player_tick_balls(2) [OF Cons.prems(1,3) t] this l]
  show ?case by (simp add: res)
qed

subsection \<open>What the movement loop does to the other balls\<close>

lemma keep_map_modify: "x \<in> set xs \<Longrightarrow> key x \<noteq> k \<Longrightarrow> x \<in> set (map_modify key f xs k)"
  by (induction xs) auto

lemma keep_map_delete: "x \<in> set xs \<Longrightarrow> key x \<noteq> k \<Longrightarrow> x \<in> set (map_delete key xs k)"
  by (induction xs) auto

lemma keep_map_set: "x \<in> set xs \<Longrightarrow> key x \<noteq> key v \<Longrightarrow> x \<in> set (map_set key xs v)"
  by (induction xs) auto

lemma player_tick_keeps:
  assumes inj: "inj (uuidv4 env)" and drawn: "ball_ids_drawn env s"
    and b: "b \<in> set (balls s)" and other: "carryingBallId q \<noteq> Some (b_id b)"
  shows "b \<in> set (balls (snd (player_tick env q s)))"
proof -
  have fresh: "uuidv4 env (uuidCalls s) \<noteq> b_id b"
    using fresh_uuid [OF inj, of "b_id ` set (balls s)" "uuidCalls s"] drawn b
    by (auto simp: ball_ids_drawn_def)
  have f: "b \<in> set (follow (move q) (balls s))"
    using b other by (auto simp: follow_def keep_map_modify split: option.splits)
  show ?thesis
  proof (cases "carryingBallId q")
    case None
    with f show ?thesis by (simp add: player_tick_def score_goal_def Let_def)
  next
    case (Some k)
    with other have k: "b_id b \<noteq> k" by auto
    have "b \<in> set (map_set b_id (map_delete b_id (follow (move q) (balls s)) k) nb)"
      if "b_id nb = uuidv4 env (uuidCalls s)" for nb
      using keep_map_set [OF keep_map_delete [where key = b_id, OF f k], of b_id nb] fresh that by simp
    with f Some show ?thesis
      by (auto simp: player_tick_def score_goal_def Let_def createBall_def split: option.splits)
  qed
qed

lemma move_loop_keeps:
  "inj (uuidv4 env) \<Longrightarrow> ball_ids_drawn env s \<Longrightarrow> b \<in> set (balls s) \<Longrightarrow>
     \<forall>q\<in>set ps. carryingBallId q \<noteq> Some (b_id b) \<Longrightarrow>
     b \<in> set (balls (snd (move_loop env ps s)))"
proof (induction ps arbitrary: s)
  case Nil
  then show ?case by simp
next
  case (Cons p ps)
  obtain p1 s1 where t: "player_tick env p s = (p1, s1)" by (cases "player_tick env p s")
  have "b \<in> set (balls s1)"
    using player_tick_keeps [OF Cons.prems(1,2,3), of p] Cons.prems(4) t by simp
  from Cons.IH [OF Cons.prems(1) player_tick_balls(2) [OF Cons.prems(1,2) t] this] Cons.prems(4) t
  show ?case by (simp add: split_beta)
qed

lemma player_tick_ids:
  "b_id ` set (balls (snd (player_tick env p s)))
     \<subseteq> insert (uuidv4 env (uuidCalls s)) (b_id ` set (balls s))"
proof -
  let ?s = "s\<lparr>balls := follow (move p) (balls s)\<rparr>"
  have f: "b_id ` set (balls ?s) = b_id ` set (balls s)"
    by (simp; metis follow_ids set_map)
  have t: "snd (player_tick env p s) = snd (score_goal env (move p) ?s)"
    by (simp add: player_tick_def Let_def)
  from score_goal_cases [of env "move p" ?s]
  consider (same) "snd (score_goal env (move p) ?s) = ?s"
    | (new) k where "balls (snd (score_goal env (move p) ?s)) =
         map_set b_id (map_delete b_id (balls ?s) k)
           \<lparr>b_id = uuidv4 env (uuidCalls ?s), b_x = fst (randInField env (randomCalls ?s)),
            b_y = snd (randInField env (randomCalls ?s)), carriedBy = None\<rparr>"
    by (metis snd_conv)
  then show ?thesis
  proof cases
    case same
    with f t show ?thesis by auto
  next
    case new
    have "b_id ` set (balls (snd (player_tick env p s)))
        = insert (uuidv4 env (uuidCalls s)) (b_id ` set (map_delete b_id (balls ?s) k))"
      by (simp only: t new keys_map_set) simp
    also have "\<dots> \<subseteq> insert (uuidv4 env (uuidCalls s)) (b_id ` set (balls ?s))"
      using keys_map_delete_subset [of b_id "balls ?s" k] by blast
    finally show ?thesis by (simp only: f)
  qed
qed

lemma move_loop_absent:
  "inj (uuidv4 env) \<Longrightarrow> j < uuidCalls s \<Longrightarrow> uuidv4 env j \<notin> b_id ` set (balls s) \<Longrightarrow>
     uuidv4 env j \<notin> b_id ` set (balls (snd (move_loop env ps s)))"
proof (induction ps arbitrary: s)
  case Nil
  then show ?case by simp
next
  case (Cons p ps)
  obtain p1 s1 where t: "player_tick env p s = (p1, s1)" by (cases "player_tick env p s")
  have "uuidv4 env j \<noteq> uuidv4 env (uuidCalls s)"
    using Cons.prems(1,2) by (auto dest: injD)
  with player_tick_ids [of env p s] Cons.prems(3) t
  have absent: "uuidv4 env j \<notin> b_id ` set (balls s1)" by auto
  have "j < uuidCalls s1" using player_tick_frame(3) [OF t] Cons.prems(2) by simp
  from Cons.IH [OF Cons.prems(1) this absent] t show ?case by (simp add: split_beta)
qed

subsection \<open>Pickup and collision leave every ball where it is\<close>

lemma scan_balls_place:
  "map (\<lambda>b. (b_id b, b_x b, b_y b)) (fst (scan_balls p bs)) = map (\<lambda>b. (b_id b, b_x b, b_y b)) bs"
  by (induction bs) (auto simp: split_beta)

lemma pickup_body_place:
  "map (\<lambda>b. (b_id b, b_x b, b_y b)) (snd (pickup_body p bs)) = map (\<lambda>b. (b_id b, b_x b, b_y b)) bs"
  using scan_balls_place [of p bs]
  by (auto simp: pickup_body_def split: prod.splits option.splits)

lemma pickup_loop_place:
  "map (\<lambda>b. (b_id b, b_x b, b_y b)) (snd (pickup_loop ps bs)) = map (\<lambda>b. (b_id b, b_x b, b_y b)) bs"
proof (induction ps arbitrary: bs)
  case Nil
  then show ?case by simp
next
  case (Cons p ps)
  show ?case
    using Cons.IH [of "snd (pickup_body p bs)"] pickup_body_place [of p bs]
    by (simp add: split_beta)
qed

lemma drop_ball_place:
  "map (\<lambda>b. (b_id b, b_x b, b_y b)) (snd (drop_ball p bs)) = map (\<lambda>b. (b_id b, b_x b, b_y b)) bs"
  by (auto simp: drop_ball_def map_modify_field split: option.splits)

lemma collide_pair_place:
  "map (\<lambda>b. (b_id b, b_x b, b_y b)) (snd (collide_pair i j st))
     = map (\<lambda>b. (b_id b, b_x b, b_y b)) (snd st)"
  by (simp add: collide_pair_def Let_def split_beta drop_ball_place)

lemma collision_step_place:
  "map (\<lambda>b. (b_id b, b_x b, b_y b)) (snd (collide_outer n 0 st))
     = map (\<lambda>b. (b_id b, b_x b, b_y b)) (snd st)"
proof -
  have "map (\<lambda>b. (b_id b, b_x b, b_y b)) (snd (foldl (\<lambda>st (a, b). collide_pair a b st) st xs))
     = map (\<lambda>b. (b_id b, b_x b, b_y b)) (snd st)" for xs
    by (induction xs arbitrary: st) (simp_all add: split_beta collide_pair_place)
  then show ?thesis by (simp only: collision_step_pairs)
qed

lemma update_place:
  "map (\<lambda>b. (b_id b, b_x b, b_y b)) (balls (update env s))
     = map (\<lambda>b. (b_id b, b_x b, b_y b)) (balls (snd (move_loop env (players s) s)))"
  by (simp add: update_expand Let_def collision_step_place pickup_loop_place)

subsection \<open>A scoring player, over the whole tick\<close>

lemma scoring_body:
  assumes carry: "carryingBallId p = Some k" "k \<noteq> []"
    and goal: "isInGoal (team p) (p_x (move p)) (p_y (move p))"
    and present: "k \<in> b_id ` set (balls s)"
    and dist: "distinct (map b_id (balls s))"
    and fresh: "uuidv4 env (uuidCalls s) \<notin> b_id ` set (balls s)"
    and rnd: "0 \<le> Math_random env (randomCalls s)" "Math_random env (randomCalls s) < 1"
      "0 \<le> Math_random env (randomCalls s + 1)" "Math_random env (randomCalls s + 1) < 1"
  shows "\<exists>x y. - WORLD_WIDTH / 2 \<le> x \<and> x < WORLD_WIDTH / 2
          \<and> - WORLD_HEIGHT / 2 \<le> y \<and> y < WORLD_HEIGHT / 2
          \<and> player_tick env p s =
              ((move p)\<lparr>score := score p + 1, carryingBallId := None\<rparr>,
               s\<lparr>balls := map_delete b_id (balls s) k
                     @ [\<lparr>b_id = uuidv4 env (uuidCalls s), b_x = Num x, b_y = Num y,
                         carriedBy = None\<rparr>],
                 uuidCalls := uuidCalls s + 1, randomCalls := randomCalls s + 2\<rparr>)"
    and "k \<notin> b_id ` set (balls (snd (player_tick env p s)))"
proof -
  from randInField_in_field [OF rnd] obtain x y where xy:
    "randInField env (randomCalls s) = (Num x, Num y)"
    "- WORLD_WIDTH / 2 \<le> x" "x < WORLD_WIDTH / 2" "- WORLD_HEIGHT / 2 \<le> y" "y < WORLD_HEIGHT / 2"
    by blast
  let ?nb = "\<lparr>b_id = uuidv4 env (uuidCalls s), b_x = Num x, b_y = Num y, carriedBy = None\<rparr>"
  let ?rest = "map_delete b_id (balls s) k"
  have fresh': "b_id ?nb \<notin> b_id ` set ?rest"
    using fresh keys_map_delete_subset [of b_id "balls s" k] by auto
  obtain old where old: "map_get b_id (follow (move p) (balls s)) k = Some old"
    using map_get_follow_present [OF present, of "move p"] by auto
  have run: "player_tick env p s =
      ((move p)\<lparr>score := score p + 1, carryingBallId := None\<rparr>,
       s\<lparr>balls := ?rest @ [?nb], uuidCalls := uuidCalls s + 1, randomCalls := randomCalls s + 2\<rparr>)"
    using carry goal old xy(1) map_set_fresh [OF fresh']
    by (simp add: player_tick_def score_goal_def createBall_def Let_def map_delete_follow)
  with xy show "\<exists>x y. - WORLD_WIDTH / 2 \<le> x \<and> x < WORLD_WIDTH / 2
          \<and> - WORLD_HEIGHT / 2 \<le> y \<and> y < WORLD_HEIGHT / 2
          \<and> player_tick env p s =
              ((move p)\<lparr>score := score p + 1, carryingBallId := None\<rparr>,
               s\<lparr>balls := map_delete b_id (balls s) k
                     @ [\<lparr>b_id = uuidv4 env (uuidCalls s), b_x = Num x, b_y = Num y,
                         carriedBy = None\<rparr>],
                 uuidCalls := uuidCalls s + 1, randomCalls := randomCalls s + 2\<rparr>)"
    by blast
  have "uuidv4 env (uuidCalls s) \<noteq> k" using present fresh by blast
  moreover have "k \<notin> b_id ` set ?rest" by (simp add: keys_map_delete_distinct [OF dist])
  ultimately show "k \<notin> b_id ` set (balls (snd (player_tick env p s)))" by (simp add: run)
qed

lemma scoring_tick:
  assumes inj: "inj (uuidv4 env)" and ne: "\<forall>k. uuidv4 env k \<noteq> []"
    and rnd: "\<forall>k. 0 \<le> Math_random env k \<and> Math_random env k < 1"
    and drawn: "ball_ids_drawn env s" and wf: "carry_wf (players s) (balls s)"
    and n: "n < length (players s)" and p: "players s ! n = p"
    and carry: "carryingBallId p = Some k"
    and goal: "isInGoal (team p) (p_x (move p)) (p_y (move p))"
    and sn: "sn = snd (move_loop env (take n (players s)) s)"
  shows "\<exists>x y. - WORLD_WIDTH / 2 \<le> x \<and> x < WORLD_WIDTH / 2
          \<and> - WORLD_HEIGHT / 2 \<le> y \<and> y < WORLD_HEIGHT / 2
          \<and> player_tick env p sn =
              ((move p)\<lparr>score := score p + 1, carryingBallId := None\<rparr>,
               sn\<lparr>balls := map_delete b_id (balls sn) k
                     @ [\<lparr>b_id = uuidv4 env (uuidCalls sn), b_x = Num x, b_y = Num y,
                         carriedBy = None\<rparr>],
                  uuidCalls := uuidCalls sn + 1, randomCalls := randomCalls sn + 2\<rparr>)
          \<and> (\<exists>b\<in>set (balls (update env s)).
                b_id b = uuidv4 env (uuidCalls sn) \<and> b_x b = Num x \<and> b_y b = Num y)"
    and "k \<in> b_id ` set (balls s)"
    and "k \<notin> b_id ` set (balls (update env s))"
    and "carryingBallId (players (update env s) ! n) \<noteq> Some k"
    and "uuidv4 env (uuidCalls sn) \<notin> b_id ` set (balls s)"
proof -
  let ?xs = "take n (players s)" and ?ys = "drop (Suc n) (players s)"
  let ?l = "move_loop env ?xs s"
  have ps: "players s = ?xs @ p # ?ys" using id_take_nth_drop [OF n] p by simp
  have l: "move_loop env ?xs s = (fst ?l, sn)" by (simp add: sn)
  have "carry_wf ([] @ ?xs @ (p # ?ys)) (balls s)" using wf ps by simp
  from move_loop_wf_mid [OF inj ne drawn this l]
  have mid: "carry_wf (fst ?l @ p # ?ys) (balls sn)" by simp
  have drawn_n: "ball_ids_drawn env sn" using move_loop_balls [OF inj drawn l] by simp
  have p_in: "p \<in> set (fst ?l @ p # ?ys)" by simp
  from carry_wfD(5) [OF mid p_in carry] obtain b0 where
    b0: "b0 \<in> set (balls sn)" "b_id b0 = k" by blast
  then have present: "k \<in> b_id ` set (balls sn)" by auto
  have k: "k \<noteq> []" using carry_wfD(4) [OF mid b0(1)] b0(2) by simp
  have dist: "distinct (map b_id (balls sn))" by (rule carry_wfD(2) [OF mid])
  have fresh: "uuidv4 env (uuidCalls sn) \<notin> b_id ` set (balls sn)"
    using fresh_uuid [OF inj] drawn_n by (simp add: ball_ids_drawn_def)
  have r: "0 \<le> Math_random env (randomCalls sn)" "Math_random env (randomCalls sn) < 1"
    "0 \<le> Math_random env (randomCalls sn + 1)" "Math_random env (randomCalls sn + 1) < 1"
    using rnd by simp_all
  from scoring_body(1) [OF carry k goal present dist fresh r] obtain x y where xy:
    "- WORLD_WIDTH / 2 \<le> x" "x < WORLD_WIDTH / 2" "- WORLD_HEIGHT / 2 \<le> y" "y < WORLD_HEIGHT / 2"
    and t: "player_tick env p sn =
              ((move p)\<lparr>score := score p + 1, carryingBallId := None\<rparr>,
               sn\<lparr>balls := map_delete b_id (balls sn) k
                     @ [\<lparr>b_id = uuidv4 env (uuidCalls sn), b_x = Num x, b_y = Num y,
                         carriedBy = None\<rparr>],
                  uuidCalls := uuidCalls sn + 1, randomCalls := randomCalls sn + 2\<rparr>)"
    by blast
  let ?nb = "\<lparr>b_id = uuidv4 env (uuidCalls sn), b_x = Num x, b_y = Num y, carriedBy = None\<rparr>"
  let ?t = "player_tick env p sn"
  let ?s1 = "snd (move_loop env ?ys (snd ?t))"
  have whole: "snd (move_loop env (players s) s) = ?s1"
    using move_loop_at [OF n, of env s] p by (simp add: Let_def sn)
  have drawn_t: "ball_ids_drawn env (snd ?t)"
    by (rule player_tick_balls(2) [OF inj drawn_n, of p "fst ?t"]) simp
  have gone_t: "k \<notin> b_id ` set (balls (snd ?t))"
    by (rule scoring_body(2) [OF carry k goal present dist fresh r])
  from present drawn_n obtain j where j: "j < uuidCalls sn" "k = uuidv4 env j"
    by (auto simp: ball_ids_drawn_def)
  have "j < uuidCalls (snd ?t)" using j(1) by (simp add: t)
  from move_loop_absent [OF inj this, of ?ys] gone_t j(2)
  have gone1: "k \<notin> b_id ` set (balls ?s1)" by simp
  then show gone: "k \<notin> b_id ` set (balls (update env s))"
    by (metis update_ball_ids whole set_map)
  have nb_t: "?nb \<in> set (balls (snd ?t))" by (simp add: t)
  have others: "\<forall>q\<in>set ?ys. carryingBallId q \<noteq> Some (b_id ?nb)"
  proof
    fix q
    assume "q \<in> set ?ys"
    then have q: "q \<in> set (fst ?l @ p # ?ys)" by simp
    show "carryingBallId q \<noteq> Some (b_id ?nb)"
    proof
      assume "carryingBallId q = Some (b_id ?nb)"
      from carry_wfD(5) [OF mid q this] obtain b where
        b: "b \<in> set (balls sn)" "b_id b = uuidv4 env (uuidCalls sn)" by auto
      from b(1) have "b_id b \<in> b_id ` set (balls sn)" by (rule imageI)
      with b(2) fresh show False by simp
    qed
  qed
  from move_loop_keeps [OF inj drawn_t nb_t others]
  have "?nb \<in> set (balls ?s1)" .
  then have "(b_id ?nb, b_x ?nb, b_y ?nb)
      \<in> set (map (\<lambda>b. (b_id b, b_x b, b_y b)) (balls (snd (move_loop env (players s) s))))"
    by (simp only: whole set_map) (rule imageI)
  then have "(b_id ?nb, b_x ?nb, b_y ?nb)
      \<in> set (map (\<lambda>b. (b_id b, b_x b, b_y b)) (balls (update env s)))"
    by (simp only: update_place)
  then have there: "\<exists>b\<in>set (balls (update env s)).
      b_id b = uuidv4 env (uuidCalls sn) \<and> b_x b = Num x \<and> b_y b = Num y"
    by auto
  from xy t there
  show "\<exists>x y. - WORLD_WIDTH / 2 \<le> x \<and> x < WORLD_WIDTH / 2
          \<and> - WORLD_HEIGHT / 2 \<le> y \<and> y < WORLD_HEIGHT / 2
          \<and> player_tick env p sn =
              ((move p)\<lparr>score := score p + 1, carryingBallId := None\<rparr>,
               sn\<lparr>balls := map_delete b_id (balls sn) k
                     @ [\<lparr>b_id = uuidv4 env (uuidCalls sn), b_x = Num x, b_y = Num y,
                         carriedBy = None\<rparr>],
                  uuidCalls := uuidCalls sn + 1, randomCalls := randomCalls sn + 2\<rparr>)
          \<and> (\<exists>b\<in>set (balls (update env s)).
                b_id b = uuidv4 env (uuidCalls sn) \<and> b_x b = Num x \<and> b_y b = Num y)"
    by blast
  have p_s: "p \<in> set (players s)" using n p by auto
  from carry_wfD(5) [OF wf p_s carry] show "k \<in> b_id ` set (balls s)" by auto
  have len: "length (players (update env s)) = length (players s)"
    by (metis update_player_ids length_map)
  show "carryingBallId (players (update env s) ! n) \<noteq> Some k"
  proof
    assume c: "carryingBallId (players (update env s) ! n) = Some k"
    have "players (update env s) ! n \<in> set (players (update env s))" using n len by simp
    from carry_wfD(5) [OF update_wf(1) [OF inj ne drawn wf] this c] obtain b where
      b: "b \<in> set (balls (update env s))" "b_id b = k" by auto
    from b(1) have "b_id b \<in> b_id ` set (balls (update env s))" by (rule imageI)
    with b(2) gone show False by simp
  qed
  have "uuidCalls s \<le> uuidCalls sn" using move_loop_frame [OF l] by simp
  from drawn_mono [OF _ this, of "b_id ` set (balls s)" env] drawn
  have "b_id ` set (balls s) \<subseteq> uuidv4 env ` {..<uuidCalls sn}" by (simp add: ball_ids_drawn_def)
  from fresh_uuid [OF inj this] show "uuidv4 env (uuidCalls sn) \<notin> b_id ` set (balls s)" .
qed

subsection \<open>A pair in collision\<close>



lemma drop_ball_length [simp]: "length (snd (drop_ball p bs)) = length bs"
  by (auto simp: drop_ball_def split: option.splits)



lemma collide_pair_hit:
  assumes hit: "js_lt (dist2 (p_x (ps ! i)) (p_y (ps ! i)) (p_x (ps ! j)) (p_y (ps ! j))) collisionDist2"
    and dx: "dx = p_x (ps ! i) - p_x (ps ! j)" and dy: "dy = p_y (ps ! i) - p_y (ps ! j)"
    and mag: "mag = js_or (Math_sqrt (dx * dx + dy * dy)) (Num (1 / 10000))"
    and c: "c = Math_sqrt (collisionDist2
          - dist2 (p_x (ps ! i)) (p_y (ps ! i)) (p_x (ps ! j)) (p_y (ps ! j))) / Num 2"
    and p1a: "p1a = (ps ! i)\<lparr>p_x := p_x (ps ! i) + dx / mag * c, p_y := p_y (ps ! i) + dy / mag * c\<rparr>"
    and p2a: "p2a = (ps ! j)\<lparr>p_x := p_x (ps ! j) - dx / mag * c, p_y := p_y (ps ! j) - dy / mag * c\<rparr>"
  shows "collide_pair i j (ps, bs) =
     (ps[i := fst (drop_ball p1a bs), j := fst (drop_ball p2a (snd (drop_ball p1a bs)))],
      snd (drop_ball p2a (snd (drop_ball p1a bs))))"
  using hit unfolding dx dy mag c p1a p2a
  by (simp add: collide_pair_def Let_def split_beta)

text \<open>
  Two players on the same point are in collision, and the collision step leaves them
  on that point: the direction of the zero vector, divided by the fallback magnitude,
  is zero.
\<close>

lemma coincident_pair_stays:
  assumes "i < j" "j < length ps"
    and "p_x (ps ! i) = Num x" "p_y (ps ! i) = Num y" "p_x (ps ! j) = Num x" "p_y (ps ! j) = Num y"
  shows "js_lt (dist2 (p_x (ps ! i)) (p_y (ps ! i)) (p_x (ps ! j)) (p_y (ps ! j))) collisionDist2"
    and "map (\<lambda>p. (p_x p, p_y p)) (fst (collide_pair i j (ps, bs))) = map (\<lambda>p. (p_x p, p_y p)) ps"
proof -
  show hit: "js_lt (dist2 (p_x (ps ! i)) (p_y (ps ! i)) (p_x (ps ! j)) (p_y (ps ! j))) collisionDist2"
    using assms(3-6) by (simp add: dist2_finite collisionDist2_def config_defs)
  let ?p1a = "(ps ! i)\<lparr>p_x := Num x, p_y := Num y\<rparr>"
  let ?p2a = "(ps ! j)\<lparr>p_x := Num x, p_y := Num y\<rparr>"
  have "collide_pair i j (ps, bs) =
     (ps[i := fst (drop_ball ?p1a bs), j := fst (drop_ball ?p2a (snd (drop_ball ?p1a bs)))],
      snd (drop_ball ?p2a (snd (drop_ball ?p1a bs))))"
    using collide_pair_hit [OF hit refl refl refl refl refl refl, of bs] assms(3-6)
    by (simp add: dist2_finite collisionDist2_def config_defs)
  then have "fst (collide_pair i j (ps, bs)) =
      ps[i := fst (drop_ball ?p1a bs), j := fst (drop_ball ?p2a (snd (drop_ball ?p1a bs)))]"
    by simp
  moreover have "map (\<lambda>p. (p_x p, p_y p)) (ps[i := a, j := b]) = map (\<lambda>p. (p_x p, p_y p)) ps"
    if "(p_x a, p_y a) = (Num x, Num y)" "(p_x b, p_y b) = (Num x, Num y)" for a b
  proof -
    have "map (\<lambda>p. (p_x p, p_y p)) (ps[i := a]) = map (\<lambda>p. (p_x p, p_y p)) ps"
      using that(1) assms(3,4) by (intro map_list_update_same) simp
    moreover have "(ps[i := a]) ! j = ps ! j" using assms(1) by simp
    ultimately show ?thesis
      using that(2) assms(5,6)
        map_list_update_same [of "\<lambda>p. (p_x p, p_y p)" b "ps[i := a]" j] by simp
  qed
  ultimately show "map (\<lambda>p. (p_x p, p_y p)) (fst (collide_pair i j (ps, bs)))
      = map (\<lambda>p. (p_x p, p_y p)) ps"
    by (simp add: drop_ball_player)
qed

text \<open>
  A player can be in several pairs of one collision step. The first two of the three
  players below are moved 14 units apart as a pair; the second is then 6 units from
  the third and is moved back, so that the step ends with the first two 10 units
  apart.
\<close>

lemma trio_step:
  "map (\<lambda>p. (p_x p, p_y p)) (fst (collide_pair 0 1 (trio, [])))
     = [(Num 96, Num 0), (Num 110, Num 0), (Num 116, Num 0)]"
  "map (\<lambda>p. (p_x p, p_y p)) (fst (collide_outer 3 0 (trio, [])))
     = [(Num 96, Num 0), (Num 106, Num 0), (Num 120, Num 0)]"
  by (simp_all add: trio_def collide_outer.simps collide_inner.simps collide_pair_def dist2_def
      collisionDist2_def config_defs drop_ball_def Let_def sqrt_squares)

subsection \<open>The pickup loop, player by player\<close>





subsection \<open>A carrier inside its goal that does not score\<close>

lemma goal_startup:
  "startup goal_env =
     \<lparr>players = [],
      balls = \<lparr>b_id = ''u'', b_x = Num (- 775 / 2), b_y = Num 0, carriedBy = None\<rparr> # demo_rest,
      nextTeamIndex = 0, uuidCalls = 5, randomCalls = 10\<rparr>"
  by (simp add: eval_defs goal_env_def demo_uuid_def eval_nat_numeral demo_rest_def)

lemma scout_joined: "server goal_env [Connection, walk_left ''uuuuuu''] = scout (- 360)"
  by (simp add: server_def goal_startup)
    (simp add: on_connection_def on_message_def createPlayer_def config_defs map_get_def
      walk_left_def scout_def goal_env_def demo_uuid_def eval_nat_numeral Let_def)

lemma scout_tick:
  assumes "- 753 / 2 \<le> x" and "x \<le> - 5"
  shows "update goal_env (scout x) = scout (x - 3)"
proof -
  have "x \<le> 398" using assms by simp
  from move_left [OF this] assms show ?thesis
    by (simp add: far_tick_defs scout_def demo_rest_def)
qed

lemma scout_run:
  "- 759 / 2 + 3 * real n \<le> x \<Longrightarrow> x \<le> - 5 \<Longrightarrow>
     run goal_env (scout x) (replicate n Tick) = scout (x - 3 * real n)"
proof (induction n arbitrary: x)
  case 0
  then show ?case by simp
next
  case (Suc n)
  have "update goal_env (scout x) = scout (x - 3)"
    using Suc.prems by (intro scout_tick) simp_all
  moreover have "run goal_env (scout (x - 3)) (replicate n Tick) = scout (x - 3 - 3 * real n)"
    using Suc.prems by (intro Suc.IH) simp_all
  ultimately show ?case by (simp add: algebra_simps)
qed

lemma scout_arrives: "update goal_env (scout (- 378)) = in_goal_carrier (- 381) (- 1) (- 775 / 2)"
proof -
  have "(- 378 :: real) \<le> 398" by simp
  from move_left [OF this] show ?thesis
    by (simp add: tick_defs scout_def in_goal_carrier_def demo_rest_def)
qed

lemma goal_run_state: "server goal_env goal_run = in_goal_carrier (- 381) 1 (- 775 / 2)"
proof -
  have "run goal_env (scout (- 360)) (replicate 6 Tick) = scout (- 360 - 3 * real 6)"
    by (rule scout_run) simp_all
  then have "run goal_env (scout (- 360)) (replicate 7 Tick) = in_goal_carrier (- 381) (- 1) (- 775 / 2)"
    using run_append [of goal_env "scout (- 360)" "replicate 6 Tick" "[Tick]"]
    by (simp add: scout_arrives replicate_append_same eval_nat_numeral)
  with scout_joined show ?thesis
    by (simp add: server_def goal_run_def run_append)
      (simp add: on_message_def map_get_def walk_right_def in_goal_carrier_def)
qed

lemma goal_run_tick:
  "update goal_env (in_goal_carrier (- 381) 1 (- 775 / 2)) = in_goal_carrier (- 378) 1 (- 378)"
  by (simp add: tick_defs move_def in_goal_carrier_def demo_rest_def)

lemma server_ball_ids_drawn: "inj (uuidv4 env) \<Longrightarrow> ball_ids_drawn env (server env es)"
  using run_balls [OF _ startup_balls(2), of env es] by (simp add: server_def)

section \<open>The claims\<close>

text \<open>
  C7. The number of live balls is constant over the lifetime of the server: it is
  \<open>BALL_COUNT\<close> after start-up and after every run of events, and no event changes it,
  a tick with scoring events included (each deletes one ball and creates one). The
  ids that \<^verbatim>\<open>uuidv4\<close> returns are taken to be pairwise different.
\<close>

theorem C7_ball_pool_size_constant:
  assumes "inj (uuidv4 env)"
  shows "length (balls (startup env)) = BALL_COUNT
         \<and> length (balls (server env es)) = BALL_COUNT
         \<and> length (balls (step env (server env es) e)) = length (balls (server env es))"
proof -
  have drawn: "ball_ids_drawn env (server env es)"
    using run_balls [OF assms startup_balls(2) [OF assms], of es] by (simp add: server_def)
  have "length (balls (server env es)) = BALL_COUNT"
    using run_balls [OF assms startup_balls(2) [OF assms], of es] startup_balls(1) [OF assms]
    by (simp add: server_def)
  with startup_balls(1) [OF assms] step_balls(1) [OF assms drawn, of e] show ?thesis by simp
qed

text \<open>
  A run in which the first player picks up the first ball, walks left into the left
  goal and scores.
\<close>

theorem C7_ball_pool_size_constant_witness:
  "length (balls (startup demo_env)) = BALL_COUNT
   \<and> length (balls (server demo_env
        [Connection, Tick,
         Message ''uuuuuu'' (Parsed (JString ''input'') (JNumber (- 1)) (JNumber 0)),
         Tick, Tick, Tick, Tick, Tick, Tick, Tick])) = BALL_COUNT
   \<and> length (balls (step demo_env (server demo_env
        [Connection, Tick,
         Message ''uuuuuu'' (Parsed (JString ''input'') (JNumber (- 1)) (JNumber 0)),
         Tick, Tick, Tick, Tick, Tick, Tick]) Tick))
     = length (balls (server demo_env
        [Connection, Tick,
         Message ''uuuuuu'' (Parsed (JString ''input'') (JNumber (- 1)) (JNumber 0)),
         Tick, Tick, Tick, Tick, Tick, Tick]))"
  using C7_ball_pool_size_constant [OF inj_demo_env] by blast

text \<open>
  C10. A player's score is zero when the player is created, is changed by no event but
  a tick, which adds exactly one when the player scores and nothing otherwise, and so
  is a non-negative integer that never decreases while the player is connected. The
  ids that \<^verbatim>\<open>uuidv4\<close> returns are taken to be pairwise different, so that an id
  names one player for good.
\<close>

theorem C10_score_starts_at_zero_and_never_decreases:
  assumes "inj (uuidv4 env)"
  shows "score (createPlayer i t) = 0
    \<and> list_all (\<lambda>p. 0 \<le> score p) (players (server env es))
    \<and> (map_get p_id (players (server env es)) i = Some p
         \<and> map_get p_id (players (server env (es @ [e]))) i = Some p1
        \<longrightarrow> score p1 = (if e = Tick \<and> scores p then score p + 1 else score p))
    \<and> (map_get p_id (players (server env es)) i = Some p
         \<and> map_get p_id (players (server env (es @ es'))) i = Some p'
        \<longrightarrow> score p \<le> score p')"
proof -
  have ok: "players_ok env (server env es)"
    unfolding server_def by (rule run_players_ok [OF assms startup_players_ok])
  have one: "server env (es @ [e]) = step env (server env es) e"
    by (simp add: server_def run_append)
  have many: "server env (es @ es') = run env (server env es) es'"
    by (simp add: server_def run_append)
  show ?thesis
    using ok step_score_of [OF assms ok, of i p e p1] run_score_mono [OF assms ok, of i p es' p']
    by (simp add: createPlayer_def players_ok_def one many)
qed

text \<open>
  The first player picks up the first ball, walks left for six ticks to \<open>x = -378\<close>
  and scores on the seventh.
\<close>

theorem C10_score_starts_at_zero_and_never_decreases_witness:
  "let es = [Connection, Tick, demo_input] @ replicate 6 Tick;
       p = \<lparr>p_id = ''uuuuuu'', team = ''left'', p_x = Num (- 378), p_y = Num 0,
            dirX = Num (- 1), dirY = Num 0, score = 0, carryingBallId = Some ''u''\<rparr>;
       p1 = \<lparr>p_id = ''uuuuuu'', team = ''left'', p_x = Num (- 381), p_y = Num 0,
             dirX = Num (- 1), dirY = Num 0, score = 1, carryingBallId = None\<rparr>
   in map_get p_id (players (server demo_env es)) ''uuuuuu'' = Some p
      \<and> map_get p_id (players (server demo_env (es @ [Tick]))) ''uuuuuu'' = Some p1
      \<and> scores p
      \<and> score (createPlayer ''uuuuuu'' ''left'') = 0
      \<and> list_all (\<lambda>p. 0 \<le> score p) (players (server demo_env es))
      \<and> score p1 = score p + 1
      \<and> score p \<le> score p1"
proof -
  let ?es = "[Connection, Tick, demo_input] @ replicate 6 Tick"
  let ?p = "\<lparr>p_id = ''uuuuuu'', team = ''left'', p_x = Num (- 378), p_y = Num 0,
            dirX = Num (- 1), dirY = Num 0, score = 0, carryingBallId = Some ''u''\<rparr>"
  let ?p1 = "\<lparr>p_id = ''uuuuuu'', team = ''left'', p_x = Num (- 381), p_y = Num 0,
             dirX = Num (- 1), dirY = Num 0, score = 1, carryingBallId = None\<rparr>"
  have before: "map_get p_id (players (server demo_env ?es)) ''uuuuuu'' = Some ?p"
    by (simp only: demo_at_goal_line) (simp add: demo_carrier_def map_get_def)
  have after: "map_get p_id (players (server demo_env (?es @ [Tick]))) ''uuuuuu'' = Some ?p1"
    by (simp only: server_snoc demo_at_goal_line step.simps demo_scored) (simp add: map_get_def)
  have "- 392 \<le> (- 378 :: real)" "(- 378 :: real) \<le> 395" by simp_all
  from demo_move [OF this] have sc: "scores ?p"
    by (simp add: scores_def isInGoal_def config_defs)
  from C10_score_starts_at_zero_and_never_decreases [OF inj_demo_env,
      of "''uuuuuu''" "''left''" ?es ?p Tick ?p1 "[Tick]" ?p1] before after sc
  show ?thesis by (simp only: Let_def) simp
qed

text \<open>
  C1 (the code departs from the claim). The carry relation is to be a bijection after
  every operation that touches it, the close of a session included. The close handler
  only deletes the player: in the run below the relation holds after the first
  player has picked up the first ball and fails once that player's session is closed,
  because the ball still names the player. The close is the only event that breaks it:
  a run without one keeps the bijection (\<open>server_carry_bijection\<close>), and a close
  keeps the half of it that starts from the players (\<open>on_close_wf\<close>).
\<close>

theorem C1_close_breaks_the_carry_relation:
  "carry_bijection (server demo_env [Connection, Tick])
   \<and> \<not> carry_bijection (server demo_env [Connection, Tick, Close ''uuuuuu''])"
  by (simp add: demo_picked demo_orphaned carry_bijection_def demo_rest_def)

theorem C1_close_breaks_the_carry_relation_witness:
  "\<exists>s i. carry_bijection s \<and> \<not> carry_bijection (on_close i s)"
proof -
  have "server demo_env [Connection, Tick, Close ''uuuuuu'']
        = on_close ''uuuuuu'' (server demo_env [Connection, Tick])"
    using server_snoc [of demo_env "[Connection, Tick]" "Close ''uuuuuu''"] by simp
  with C1_close_breaks_the_carry_relation show ?thesis by metis
qed

text \<open>
  C2 (the code departs from the claim). The player of a closed session is in no later
  snapshot, but its ball is not freed: two ticks after the close the ball still names
  the closed session's player, and a new player standing on it does not pick it up.
\<close>

theorem C2_ball_of_a_closed_session_stays_carried:
  "let s = server demo_env [Connection, Tick, Close ''uuuuuu'', Tick, Connection, Connection, Tick]
   in map (\<lambda>(i, t, x, y, n). i) (pl_players (broadcastState s)) = [''uuuuuuu'', ''uuuuuuuu'']
      \<and> map (\<lambda>p. (p_x p, p_y p, carryingBallId p)) (players s)
          = [(Num 360, Num 0, None), (Num (- 360), Num 0, None)]
      \<and> pl_balls (broadcastState s)
          = [(''u'', Num (- 360), Num 0, Some ''uuuuuu''), (''uu'', Num 0, Num 0, None),
             (''uuu'', Num 0, Num 0, None), (''uuuu'', Num 0, Num 0, None),
             (''uuuuu'', Num 0, Num 0, None)]"
  by (simp add: demo_rejoined_tick demo_rejoined broadcastState_def demo_rest_def)

text \<open>
  C8 (the code departs from the claim). An unparsable payload is dropped and logged
  (\<open>on_message_dropped\<close>) and a numeric component is clamped to \<open>[-1, 1]\<close>
  (\<open>clamp_number\<close>), but an \<^verbatim>\<open>input\<close> message without \<^verbatim>\<open>x\<close> and
  \<^verbatim>\<open>y\<close> is not dropped: nothing is logged, the stored direction becomes
  \<open>(NaN, NaN)\<close>, and the next tick makes the player's position \<open>(NaN, NaN)\<close>.
\<close>

theorem C8_input_without_fields_is_stored_as_NaN:
  "let s = server demo_env [Connection];
       r = on_message demo_env ''uuuuuu'' (Parsed (JString ''input'') JUndefined JUndefined) s
   in map (\<lambda>p. (dirX p, dirY p)) (players s) = [(Num 0, Num 0)]
      \<and> map (\<lambda>p. (dirX p, dirY p)) (players (fst r)) = [(NaN, NaN)]
      \<and> snd r = False
      \<and> map (\<lambda>p. (p_x p, p_y p)) (players (update demo_env (fst r))) = [(NaN, NaN)]"
  by (simp add: demo_joined Let_def) (simp add: on_message_def map_get_def tick_defs move_def demo_rest_def)



text \<open>
  C5 (corrected). As stated, a player that carries a ball and whose position is inside
  the goal of its own team scores in the next tick. The goal test of line 1400 comes
  after the movement of lines 1377 to 1388, so it is made on the position that the
  tick's movement leaves, not on the position the player has when the tick starts. In
  the run below a left player reaches \<open>(-381, 0)\<close>, inside the left goal, and picks up
  the ball lying there in the pickup step of that tick, which comes after the goal
  test. It is then told to walk right: the next tick takes it to \<open>(-378, 0)\<close>,
  outside the goal, its score stays \<open>0\<close>, it still carries the ball and no ball is
  replaced.
\<close>

theorem C5_counterexample:
  "let s = server goal_env goal_run;
       p = players s ! 0
   in length (players s) = 1
      \<and> carryingBallId p = Some ''u'' \<and> team p = ''left''
      \<and> (p_x p, p_y p) = (Num (- 381), Num 0)
      \<and> isInGoal (team p) (p_x p) (p_y p)
      \<and> score p = 0
      \<and> score (players (update goal_env s) ! 0) = 0
      \<and> carryingBallId (players (update goal_env s) ! 0) = Some ''u''
      \<and> map b_id (balls s) = [''u'', ''uu'', ''uuu'', ''uuuu'', ''uuuuu'']
      \<and> map b_id (balls (update goal_env s)) = [''u'', ''uu'', ''uuu'', ''uuuu'', ''uuuuu'']"
  by (simp only: goal_run_state goal_run_tick Let_def)
    (simp add: in_goal_carrier_def demo_rest_def isInGoal_def config_defs)

text \<open>
  C5 as amended: a player that carries a ball and that the movement of the tick leaves
  inside the goal of its own team has its score raised by exactly one over the tick.
  When the movement loop reaches that player (in the state \<open>sn\<close> that the players
  before it have left) it moves it, adds one to its score and clears its side of the
  carry; the scored ball leaves the map and exactly one ball is appended, with the next
  id of \<^verbatim>\<open>uuidv4\<close>, no carrier and a position inside the field rectangle. When
  the tick is over the player does not carry the scored ball, no ball has the id of the
  scored ball, the new ball is among the balls at the position where it was created,
  under an id that no ball had before, and the number of balls is unchanged. (The
  player may have picked up another ball in the pickup step of the same tick, the new
  one included.) Here \<^verbatim>\<open>uuidv4\<close> never repeats itself and never returns the empty
  string, \<^verbatim>\<open>Math.random\<close> returns values in \<open>[0, 1)\<close>, and the state is as every
  run leaves it: the ball ids come from \<^verbatim>\<open>uuidv4\<close> and the first half of the carry
  relation holds (\<open>server_ball_ids_drawn\<close>, \<open>server_carry_wf\<close>). The goal test on
  finite coordinates is the one the claim words (\<open>isInGoal_finite\<close>).
\<close>

theorem C5_scoring_replaces_the_ball:
  assumes uuid: "inj (uuidv4 env)" "\<forall>k. uuidv4 env k \<noteq> []"
    and rnd: "\<forall>k. 0 \<le> Math_random env k \<and> Math_random env k < 1"
    and drawn: "ball_ids_drawn env s" and wf: "carry_wf (players s) (balls s)"
    and n: "n < length (players s)" and p: "players s ! n = p"
    and carry: "carryingBallId p = Some k"
    and goal: "isInGoal (team p) (p_x (move p)) (p_y (move p))"
    and sn: "sn = snd (move_loop env (take n (players s)) s)"
  shows "score (players (update env s) ! n) = score p + 1
    \<and> move_loop env (players s) s =
        (let l = move_loop env (take n (players s)) s;
             t = player_tick env p (snd l);
             r = move_loop env (drop (Suc n) (players s)) (snd t)
         in (fst l @ fst t # fst r, snd r))
    \<and> (\<exists>x y. - WORLD_WIDTH / 2 \<le> x \<and> x < WORLD_WIDTH / 2
          \<and> - WORLD_HEIGHT / 2 \<le> y \<and> y < WORLD_HEIGHT / 2
          \<and> player_tick env p sn =
              ((move p)\<lparr>score := score p + 1, carryingBallId := None\<rparr>,
               sn\<lparr>balls := map_delete b_id (balls sn) k
                     @ [\<lparr>b_id = uuidv4 env (uuidCalls sn), b_x = Num x, b_y = Num y,
                         carriedBy = None\<rparr>],
                  uuidCalls := uuidCalls sn + 1, randomCalls := randomCalls sn + 2\<rparr>)
          \<and> (\<exists>b\<in>set (balls (update env s)).
                b_id b = uuidv4 env (uuidCalls sn) \<and> b_x b = Num x \<and> b_y b = Num y))
    \<and> carryingBallId (players (update env s) ! n) \<noteq> Some k
    \<and> k \<in> b_id ` set (balls s)
    \<and> k \<notin> b_id ` set (balls (update env s))
    \<and> uuidv4 env (uuidCalls sn) \<notin> b_id ` set (balls s)
    \<and> length (balls (update env s)) = length (balls s)"
proof -
  have k: "k \<noteq> []"
  proof -
    have "p \<in> set (players s)" using n p by auto
    from carry_wfD(5) [OF wf this carry] carry_wfD(4) [OF wf] show ?thesis by auto
  qed
  have sc: "scores p" using carry k goal by (simp add: scores_def)
  have "length (players (update env s)) = length (players s)"
    by (metis update_player_ids length_map)
  with n have "score (players (update env s) ! n) = map score (players (update env s)) ! n"
    by simp
  also have "\<dots> = score p + 1" using n p sc by (simp add: update_scores)
  finally have score: "score (players (update env s) ! n) = score p + 1" .
  have loop: "move_loop env (players s) s =
        (let l = move_loop env (take n (players s)) s;
             t = player_tick env p (snd l);
             r = move_loop env (drop (Suc n) (players s)) (snd t)
         in (fst l @ fst t # fst r, snd r))"
    using move_loop_at [OF n, of env s] by (simp only: p)
  note tick = scoring_tick [OF uuid rnd drawn wf n p carry goal sn]
  have len: "length (balls (update env s)) = length (balls s)"
    by (rule update_balls(1) [OF uuid(1) drawn])
  from score loop tick len show ?thesis by blast
qed

text \<open>
  The first player, carrying the first ball at \<open>x = -378\<close> and walking left: the
  movement of the tick takes it to \<open>x = -381\<close>, inside the left goal.
\<close>

theorem C5_scoring_replaces_the_ball_witness:
  "let s = server demo_env ([Connection, Tick, demo_input] @ replicate 6 Tick);
       p = players s ! 0
   in inj (uuidv4 demo_env) \<and> (\<forall>k. uuidv4 demo_env k \<noteq> [])
      \<and> (\<forall>k. 0 \<le> Math_random demo_env k \<and> Math_random demo_env k < 1)
      \<and> ball_ids_drawn demo_env s \<and> carry_wf (players s) (balls s)
      \<and> carryingBallId p = Some ''u'' \<and> team p = ''left''
      \<and> (p_x (move p), p_y (move p)) = (Num (- 381), Num 0)
      \<and> isInGoal (team p) (p_x (move p)) (p_y (move p))
      \<and> map b_id (balls s) = [''u'', ''uu'', ''uuu'', ''uuuu'', ''uuuuu'']
      \<and> score p = 0
      \<and> score (players (update demo_env s) ! 0) = 1
      \<and> carryingBallId (players (update demo_env s) ! 0) \<noteq> Some ''u''
      \<and> ''u'' \<notin> b_id ` set (balls (update demo_env s))
      \<and> ''uuuuuuu'' \<in> b_id ` set (balls (update demo_env s))
      \<and> length (balls (update demo_env s)) = 5"
proof -
  let ?es = "[Connection, Tick, demo_input] @ replicate 6 Tick"
  let ?s = "server demo_env ?es"
  let ?p = "players ?s ! 0"
  have s: "?s = demo_carrier (- 378)" by (rule demo_at_goal_line)
  have uuid: "inj (uuidv4 demo_env)" "\<forall>k. uuidv4 demo_env k \<noteq> []"
    by (rule inj_demo_env) (simp add: demo_env_def demo_uuid_def)
  have rnd: "\<forall>k. 0 \<le> Math_random demo_env k \<and> Math_random demo_env k < 1"
    by (simp add: demo_env_def)
  have drawn: "ball_ids_drawn demo_env ?s" by (rule server_ball_ids_drawn [OF uuid(1)])
  have wf: "carry_wf (players ?s) (balls ?s)" by (rule server_carry_wf [OF uuid])
  have "- 392 \<le> (- 378 :: real)" "(- 378 :: real) \<le> 395" by simp_all
  note mv = demo_move [OF this]
  have p: "carryingBallId ?p = Some ''u''" "team ?p = ''left''" "score ?p = 0"
    by (simp_all only: s) (simp_all add: demo_carrier_def)
  have pos: "(p_x (move ?p), p_y (move ?p)) = (Num (- 381), Num 0)"
    using mv by (simp only: s) (simp add: demo_carrier_def)
  have goal: "isInGoal (team ?p) (p_x (move ?p)) (p_y (move ?p))"
    using mv by (simp only: s) (simp add: demo_carrier_def isInGoal_def config_defs)
  have ids: "map b_id (balls ?s) = [''u'', ''uu'', ''uuu'', ''uuuu'', ''uuuuu'']"
    by (simp only: s) (simp add: demo_carrier_def demo_rest_def)
  have idx: "0 < length (players ?s)" by (simp only: s) (simp add: demo_carrier_def)
  have new: "uuidv4 demo_env (uuidCalls (snd (move_loop demo_env (take 0 (players ?s)) ?s)))
      = ''uuuuuuu''"
    by (simp only: s) (simp add: demo_carrier_def demo_env_def demo_uuid_def eval_nat_numeral)
  note T = C5_scoring_replaces_the_ball [OF uuid rnd drawn wf idx refl p(1) goal refl]
  from T have score: "score (players (update demo_env ?s) ! 0) = score ?p + 1" by blast
  from T have gone: "carryingBallId (players (update demo_env ?s) ! 0) \<noteq> Some ''u''"
    "''u'' \<notin> b_id ` set (balls (update demo_env ?s))" by blast+
  from T obtain b where "b \<in> set (balls (update demo_env ?s))"
    "b_id b = uuidv4 demo_env (uuidCalls (snd (move_loop demo_env (take 0 (players ?s)) ?s)))"
    by blast
  then have there: "''uuuuuuu'' \<in> b_id ` set (balls (update demo_env ?s))"
    by (simp only: new) (metis imageI)
  from T have "length (balls (update demo_env ?s)) = length (balls ?s)" by blast
  moreover have "length (balls ?s) = 5" by (simp only: s) (simp add: demo_carrier_def demo_rest_def)
  ultimately have len: "length (balls (update demo_env ?s)) = 5" by simp
  from score p(3) have one: "score (players (update demo_env ?s) ! 0) = 1" by simp
  from uuid rnd drawn wf p pos goal ids one gone there len show ?thesis
    by (simp only: Let_def) simp
qed

text \<open>
  C9 (corrected). As stated, two independent runs on the same events give the same
  snapshots. They do not: the balls are created with \<^verbatim>\<open>Math.random\<close> positions and
  \<^verbatim>\<open>uuidv4\<close> ids, and two runs whose second ball lands elsewhere differ in their
  first snapshot.
\<close>

theorem C9_counterexample:
  "snapshots demo_env (startup demo_env) [Tick] \<noteq> snapshots twin_env (startup twin_env) [Tick]"
  by (simp add: update_no_players demo_startup twin_startup broadcastState_def demo_rest_def)

text \<open>
  C9 as amended: two runs on the same sequence of events produce the same snapshots,
  tick for tick, when \<^verbatim>\<open>uuidv4\<close> and \<^verbatim>\<open>Math.random\<close> return the same values
  in both as far as the run consumes them.
\<close>

theorem C9_same_events_and_same_draws_give_the_same_snapshots:
  assumes "\<forall>k<uuidCalls (server e1 es). uuidv4 e1 k = uuidv4 e2 k"
    and "\<forall>k<randomCalls (server e1 es). Math_random e1 k = Math_random e2 k"
    and "StringToNumber e1 = StringToNumber e2"
  shows "snapshots e1 (startup e1) es = snapshots e2 (startup e2) es"
  using assms by (intro server_same(3)) (simp add: same_draws_def)

text \<open>
  Two environments that differ only after the draws that the run consumes (six ids and
  ten random numbers).
\<close>

theorem C9_same_events_and_same_draws_give_the_same_snapshots_witness:
  "demo_env \<noteq> late_env
   \<and> uuidCalls (server demo_env [Connection, Tick]) = 6
   \<and> randomCalls (server demo_env [Connection, Tick]) = 10
   \<and> snapshots demo_env (startup demo_env) [Connection, Tick]
       = snapshots late_env (startup late_env) [Connection, Tick]"
proof -
  have "Math_random demo_env 10 \<noteq> Math_random late_env 10"
    by (simp add: demo_env_def late_env_def)
  then have ne: "demo_env \<noteq> late_env" by auto
  have c: "uuidCalls (server demo_env [Connection, Tick]) = 6"
    "randomCalls (server demo_env [Connection, Tick]) = 10"
    by (simp_all add: demo_picked)
  have u: "\<forall>k<uuidCalls (server demo_env [Connection, Tick]). uuidv4 demo_env k = uuidv4 late_env k"
    by (simp add: late_env_def)
  have r: "\<forall>k<randomCalls (server demo_env [Connection, Tick]).
      Math_random demo_env k = Math_random late_env k"
    by (simp add: c) (simp add: late_env_def demo_env_def)
  have t: "StringToNumber demo_env = StringToNumber late_env"
    by (simp add: late_env_def)
  from C9_same_events_and_same_draws_give_the_same_snapshots [OF u r t] ne c
  show ?thesis by simp
qed

text \<open>
  C4 (the code departs from the claim). The movement step clamps a moving player into
  the inset rectangle (\<open>move_in_bounds\<close>), but the collision step that follows moves
  players without clamping. In the run below the first player stands at the left
  wall, \<open>x = -395\<close>, when the third walks into it: the tick ends with the first
  player at \<open>x = -398\<close>, outside \<open>[-395, 395]\<close>.
\<close>

theorem C4_collision_pushes_a_player_out_of_bounds:
  "let s = server centre_env (wall_run @ [Tick])
   in map (\<lambda>p. (p_id p, p_x p, p_y p)) (players s)
        = [(''uuuuuu'', Num (- 398), Num 0), (''uuuuuuu'', Num 360, Num 0),
           (''uuuuuuuu'', Num (- 384), Num 0)]
      \<and> (- 398 :: real) < - WORLD_WIDTH / 2 + PLAYER_RADIUS"
  by (simp only: server_snoc wall_run_state step.simps wall_collision Let_def)
    (simp add: crowd_def config_defs)




end
